theory Spec2Isabelle
  imports Complex_Main "HOL-Library.Log_Nat"
begin

unbundle bit_operations_syntax

chapter \<open>ipbin: variable-precision tokens for IPv4 addresses\<close>

text \<open>
  A shallow embedding of \<^verbatim>\<open>ipbin.py\<close>. The module converts between dotted quads and
  integers (\<^verbatim>\<open>iptoint\<close>, \<^verbatim>\<open>inttoip\<close>), encodes an address as a token over the
  alphabet \<^verbatim>\<open>01abcdef\<close> by repeated bisection of the interval
  \<^verbatim>\<open>(0.0, 4294967295.0)\<close> (\<^verbatim>\<open>encode\<close>), and decodes a token into the midpoint of
  its interval and an error margin (\<^verbatim>\<open>decode_exactly\<close>, \<^verbatim>\<open>decode\<close>).
\<close>

section \<open>Errors\<close>

text \<open>
  The exceptions the module can raise: \<^verbatim>\<open>KeyError\<close> from the lookup in
  \<^verbatim>\<open>__decodemap\<close>, \<^verbatim>\<open>OSError\<close> from \<^verbatim>\<open>socket.inet_aton\<close> and
  \<^verbatim>\<open>socket.inet_ntoa\<close>, \<^verbatim>\<open>ValueError\<close> from a string with an embedded null
  character and from \<^verbatim>\<open>int(s, 16)\<close>, and \<^verbatim>\<open>binascii.Error\<close> from the hex codec.
\<close>

datatype py_error = KeyError | OSError | ValueError | BinasciiError

section \<open>Python floats\<close>

text \<open>
  A Python \<^verbatim>\<open>float\<close> is an IEEE 754 binary64 number. A finite one is a rational, and an
  arithmetic operation returns the exact result rounded to the nearest double, ties to the
  double with an even significand. The model keeps the values as rationals and rounds after
  every operation.

  \<open>ilog2 q\<close> is the binary exponent of a positive rational: \<open>2 ^ ilog2 q \<le> q < 2 ^ (ilog2 q + 1)\<close>,
  computed from the lengths of numerator and denominator. A double with exponent \<open>e\<close> is a
  multiple of \<open>2 ^ (e - 52)\<close>; below \<open>2 ^ -1022\<close> (subnormal numbers) the spacing stays
  \<open>2 ^ -1074\<close>. Overflow to infinity is not modelled: every float of the module lies between
  \<open>0\<close> and \<open>4294967295\<close>, and sums of two of them stay below \<open>2 ^ 33\<close>.
\<close>

definition ilog2 :: "rat \<Rightarrow> int" where
  "ilog2 q = (case quotient_of q of (a, b) \<Rightarrow>
     let d = bitlen a - bitlen b
     in if 2 powi d \<le> q then d else d - 1)"

definition round_half_even :: "rat \<Rightarrow> int" where
  "round_half_even y = (let f = \<lfloor>y\<rfloor>; r = y - of_int f
     in if r < 1 / 2 then f else if 1 / 2 < r then f + 1 else if even f then f else f + 1)"

definition ulp_exponent :: "rat \<Rightarrow> int" where
  "ulp_exponent q = max (ilog2 \<bar>q\<bar>) (- 1022) - 52"

definition round_double :: "rat \<Rightarrow> rat" where
  "round_double q = of_int (round_half_even (q / 2 powi ulp_exponent q)) * 2 powi ulp_exponent q"

text \<open>Float addition \<^verbatim>\<open>a + b\<close> and float division \<^verbatim>\<open>a / b\<close> (the module only divides by 2).\<close>

definition fadd :: "rat \<Rightarrow> rat \<Rightarrow> rat" where
  "fadd a b = round_double (a + b)"

definition fdiv :: "rat \<Rightarrow> rat \<Rightarrow> rat" where
  "fdiv a b = round_double (a / b)"

section \<open>Dotted quads and integers\<close>

subsection \<open>The library functions behind \<^verbatim>\<open>iptoint\<close>\<close>

text \<open>
  \<^verbatim>\<open>socket.inet_aton\<close> hands its argument to the C function \<^verbatim>\<open>inet_aton\<close>, whose
  numbers-and-dots notation is described in inet(3): one to four numbers separated by dots,
  each written as in C (decimal, octal with a leading \<^verbatim>\<open>0\<close>, hexadecimal with a leading
  \<^verbatim>\<open>0x\<close>). In \<^verbatim>\<open>a.b.c.d\<close> every number is one byte; in \<^verbatim>\<open>a.b.c\<close> the last number
  fills two bytes, in \<^verbatim>\<open>a.b\<close> three, and a single number \<^verbatim>\<open>a\<close> is the whole 32-bit
  address. The model follows the loop of the GNU C library: a number must start with a
  decimal digit and is read by \<^verbatim>\<open>strtoul\<close> with base 0; a dot continues with the next
  number; the string may end after a number, or go on with white space, after which
  anything is ignored. A string is a list of bytes (the UTF-8 encoding of the Python string).
\<close>

type_synonym bytes = "nat list"

definition isdigit :: "char \<Rightarrow> bool" where
  "isdigit c \<longleftrightarrow> c \<in> set ''0123456789''"

definition isspace :: "char \<Rightarrow> bool" where
  "isspace c \<longleftrightarrow> c \<in> {CHR '' '', CHR 0x09, CHR 0x0A, CHR 0x0B, CHR 0x0C, CHR 0x0D}"

text \<open>The value of a digit in bases up to 16, upper or lower case.\<close>

definition digit_value :: "char \<Rightarrow> nat option" where
  "digit_value c = (let n = of_char c :: nat in
     if 48 \<le> n \<and> n \<le> 57 then Some (n - 48)
     else if 97 \<le> n \<and> n \<le> 102 then Some (n - 87)
     else if 65 \<le> n \<and> n \<le> 70 then Some (n - 55)
     else None)"

text \<open>
  \<^verbatim>\<open>strtoul(cp, &endp, 0)\<close> on a string that starts with a decimal digit: the value of the
  longest prefix of digits of the base, and the rest of the string. The value is not
  truncated to the width of \<^verbatim>\<open>unsigned long\<close>: \<^verbatim>\<open>inet_aton\<close> rejects every value above
  \<^verbatim>\<open>0xffffffff\<close>, and that includes the overflow case of \<^verbatim>\<open>strtoul\<close>.
\<close>

fun strtoul_digits :: "nat \<Rightarrow> string \<Rightarrow> nat \<Rightarrow> nat \<times> string" where
  "strtoul_digits base [] acc = (acc, [])"
| "strtoul_digits base (c # cs) acc =
     (case digit_value c of
        None \<Rightarrow> (acc, c # cs)
      | Some d \<Rightarrow> if d < base then strtoul_digits base cs (acc * base + d) else (acc, c # cs))"

definition hex_prefix :: "string \<Rightarrow> bool" where
  "hex_prefix cp = (case cp of
       c0 # x # h # _ \<Rightarrow> c0 = CHR ''0'' \<and> (x = CHR ''x'' \<or> x = CHR ''X'') \<and> digit_value h \<noteq> None
     | _ \<Rightarrow> False)"

definition strtoul0 :: "string \<Rightarrow> nat \<times> string" where
  "strtoul0 cp =
     (if hex_prefix cp then strtoul_digits 16 (drop 2 cp) 0
      else if take 1 cp = ''0'' then strtoul_digits 8 cp 0
      else strtoul_digits 10 cp 0)"

text \<open>
  The end of \<^verbatim>\<open>inet_aton\<close>: the last number must fit into the bytes that are left, and is
  added below the bytes read so far.
\<close>

definition inet_aton_finish :: "nat list \<Rightarrow> nat \<Rightarrow> nat option" where
  "inet_aton_finish parts val =
     (if val > [0xffffffff, 0xffffff, 0xffff, 0xff] ! length parts then None
      else Some (fold (\<lambda>p w. w * 256 + p) parts 0 * 256 ^ (4 - length parts) + val))"

lemma strtoul_digits_length: "length (snd (strtoul_digits base cs acc)) \<le> length cs"
  by (induction cs arbitrary: acc) (auto split: option.splits intro: le_SucI)

lemma strtoul0_length: "length (snd (strtoul0 cp)) \<le> length cp"
  using strtoul_digits_length[of 16 "drop 2 cp" 0] strtoul_digits_length[of 8 cp 0]
    strtoul_digits_length[of 10 cp 0]
  by (auto simp: strtoul0_def)

text \<open>The loop of \<^verbatim>\<open>inet_aton\<close>; \<open>parts\<close> are the bytes read so far (at most three).\<close>

function inet_aton_loop :: "nat list \<Rightarrow> string \<Rightarrow> nat option" where
  "inet_aton_loop parts cp =
     (case cp of
        [] \<Rightarrow> None
      | c # _ \<Rightarrow>
          if \<not> isdigit c then None
          else (case strtoul0 cp of (val, rest) \<Rightarrow>
            if val > 0xffffffff then None
            else (case rest of
                [] \<Rightarrow> inet_aton_finish parts val
              | d # rest' \<Rightarrow>
                  if d = CHR ''.'' then
                    (if length parts > 2 \<or> val > 0xff then None
                     else inet_aton_loop (parts @ [val]) rest')
                  else if isspace d then inet_aton_finish parts val
                  else None)))"
  by pat_completeness auto
termination
proof (relation "measure (\<lambda>(parts, cp). length cp)")
  show "wf (measure (\<lambda>(parts, cp). length cp))" by simp
next
  fix parts :: "nat list" and cp :: string and c cs x val rest d rest'
  assume a: "(val, rest) = strtoul0 cp" "rest = d # rest'"
  have "length rest' < length rest" using a(2) by simp
  also have "\<dots> \<le> length cp" using strtoul0_length[of cp] a(1)[symmetric] by simp
  finally show "((parts @ [val], rest'), parts, cp) \<in> measure (\<lambda>(parts, cp). length cp)" by simp
qed

declare inet_aton_loop.simps [simp del]

text \<open>
  \<^verbatim>\<open>socket.inet_aton(ip_string)\<close>: \<^verbatim>\<open>ValueError\<close> for a string with an embedded null
  character, \<^verbatim>\<open>OSError\<close> when the C function rejects the string, and otherwise the four
  bytes of the address, most significant first.
\<close>

definition inet_aton :: "string \<Rightarrow> py_error + bytes" where
  "inet_aton ip_string =
     (if CHR 0x00 \<in> set ip_string then Inl ValueError
      else case inet_aton_loop [] ip_string of
             None \<Rightarrow> Inl OSError
           | Some w \<Rightarrow> Inr [w div 16777216, w div 65536 mod 256, w div 256 mod 256, w mod 256])"

text \<open>\<^verbatim>\<open>bytes.hex()\<close>: two lower-case hexadecimal digits for every byte.\<close>

definition hexdigit :: "nat \<Rightarrow> char" where
  "hexdigit d = ''0123456789abcdef'' ! d"

definition bytes_hex :: "bytes \<Rightarrow> string" where
  "bytes_hex bs = concat (map (\<lambda>b. [hexdigit (b div 16), hexdigit (b mod 16)]) bs)"

text \<open>
  \<^verbatim>\<open>int(s, 16)\<close> on a string of hexadecimal digits, the only strings \<^verbatim>\<open>bytes.hex()\<close>
  produces: \<^verbatim>\<open>ValueError\<close> for the empty string and for a character that is not a
  hexadecimal digit. (The signs, prefixes, underscores and blanks Python also accepts do not
  occur in the output of \<^verbatim>\<open>bytes.hex()\<close> and are not modelled.)
\<close>

fun int_of_hex_digits :: "string \<Rightarrow> nat \<Rightarrow> py_error + int" where
  "int_of_hex_digits [] acc = Inr (int acc)"
| "int_of_hex_digits (c # cs) acc =
     (case digit_value c of None \<Rightarrow> Inl ValueError | Some d \<Rightarrow> int_of_hex_digits cs (acc * 16 + d))"

definition int_of_hex :: "string \<Rightarrow> py_error + int" where
  "int_of_hex s = (if s = [] then Inl ValueError else int_of_hex_digits s 0)"

subsection \<open>\<^verbatim>\<open>iptoint\<close>\<close>

text \<open>
  \<^verbatim>\<open>
  def iptoint(ip_v4):
      return int(socket.inet_aton(ip_v4).hex(), 16)
  \<close>
\<close>

definition iptoint :: "string \<Rightarrow> py_error + int" where
  "iptoint ip_v4 = (case inet_aton ip_v4 of Inl e \<Rightarrow> Inl e | Inr packed \<Rightarrow> int_of_hex (bytes_hex packed))"

subsection \<open>The library functions behind \<^verbatim>\<open>inttoip\<close>\<close>

text \<open>The digits of a natural number in base \<open>b\<close>, most significant first.\<close>

function digits_of :: "nat \<Rightarrow> nat \<Rightarrow> nat list" where
  "digits_of b n = (if n < b \<or> b < 2 then [n] else digits_of b (n div b) @ [n mod b])"
  by pat_completeness auto
termination
  by (relation "measure (\<lambda>(b, n). n)") auto

declare digits_of.simps [simp del]

text \<open>\<^verbatim>\<open>hex(n)\<close>: the digits after \<^verbatim>\<open>0x\<close>, with a minus sign in front for a negative number.\<close>

definition py_hex :: "int \<Rightarrow> string" where
  "py_hex n = (if n < 0 then ''-0x'' @ map hexdigit (digits_of 16 (nat (- n)))
               else ''0x'' @ map hexdigit (digits_of 16 (nat n)))"

text \<open>\<^verbatim>\<open>str.zfill(width)\<close>: zeros on the left, after a leading sign.\<close>

definition zfill :: "nat \<Rightarrow> string \<Rightarrow> string" where
  "zfill width s =
     (if width \<le> length s then s
      else if s \<noteq> [] \<and> (hd s = CHR ''+'' \<or> hd s = CHR ''-'')
        then hd s # replicate (width - length s) (CHR ''0'') @ tl s
      else replicate (width - length s) (CHR ''0'') @ s)"

text \<open>
  \<^verbatim>\<open>codecs.decode(b, 'hex')\<close>, that is \<^verbatim>\<open>binascii.unhexlify\<close>: \<^verbatim>\<open>binascii.Error\<close> for a
  string of odd length or with a character that is not a hexadecimal digit.
\<close>

fun unhexlify :: "string \<Rightarrow> py_error + bytes" where
  "unhexlify [] = Inr []"
| "unhexlify [c] = Inl BinasciiError"
| "unhexlify (c1 # c2 # cs) =
     (case (digit_value c1, digit_value c2) of
        (Some h, Some l) \<Rightarrow> (case unhexlify cs of Inl e \<Rightarrow> Inl e | Inr bs \<Rightarrow> Inr ((h * 16 + l) # bs))
      | _ \<Rightarrow> Inl BinasciiError)"

text \<open>
  The decimal rendering of a byte and \<^verbatim>\<open>socket.inet_ntoa(packed)\<close>: \<^verbatim>\<open>OSError\<close> unless
  there are exactly four bytes.
\<close>

definition py_str :: "nat \<Rightarrow> string" where
  "py_str n = map hexdigit (digits_of 10 n)"

definition inet_ntoa :: "bytes \<Rightarrow> py_error + string" where
  "inet_ntoa packed = (case packed of
       [a, b, c, d] \<Rightarrow> Inr (py_str a @ ''.'' @ py_str b @ ''.'' @ py_str c @ ''.'' @ py_str d)
     | _ \<Rightarrow> Inl OSError)"

subsection \<open>\<^verbatim>\<open>inttoip\<close>\<close>

text \<open>
  \<^verbatim>\<open>
  def inttoip(ip_int):
      return socket.inet_ntoa(codecs.decode(hex(ip_int)[2:].zfill(8).encode(), 'hex'))
  \<close>
  \<^verbatim>\<open>[2:]\<close> drops two characters; \<^verbatim>\<open>.encode()\<close> leaves a string of ASCII characters as it is.
\<close>

definition inttoip :: "int \<Rightarrow> py_error + string" where
  "inttoip ip_int =
     (case unhexlify (zfill 8 (drop 2 (py_hex ip_int))) of
        Inl e \<Rightarrow> Inl e
      | Inr packed \<Rightarrow> inet_ntoa packed)"

section \<open>The alphabet and the decode table\<close>

text \<open>
  \<^verbatim>\<open>
  __base32 = '01abcdef'
  __decodemap = {}
  for i, num in enumerate(__base32):
      __decodemap[num] = i
  \<close>
\<close>

definition base32 :: string where
  "base32 = ''01abcdef''"

definition decodemap :: "char \<rightharpoonup> nat" where
  "decodemap = fold (\<lambda>(i, num) m. m(num \<mapsto> i)) (enumerate 0 base32) Map.empty"

section \<open>Decoding\<close>

text \<open>
  \<^verbatim>\<open>
  def decode_exactly(ipbin):
      ip_interval = (0.0, 4294967295.0)
      ip_range = (ip_interval[0] + ip_interval[1]) / 2
      for char in ipbin:
          char_decoded = __decodemap[char]
          for mask in [4, 2, 1]:
              ip_range /= 2
              mid = (ip_interval[0] + ip_interval[1]) / 2
              if char_decoded & mask:
                  ip_interval = (mid, ip_interval[1])
              else:
                  ip_interval = (ip_interval[0], mid)
      ip_value = (ip_interval[0] + ip_interval[1]) / 2
      return (ip_value, ip_range)
  \<close>
  The state of the loops is the interval and \<^verbatim>\<open>ip_range\<close>. \<open>decode_bit\<close> is the body of
  the inner loop, \<open>decode_loop\<close> the outer loop; a character that is not a key of the table
  raises \<^verbatim>\<open>KeyError\<close>.
\<close>

type_synonym interval = "rat \<times> rat"

definition decode_bit :: "nat \<Rightarrow> nat \<Rightarrow> interval \<times> rat \<Rightarrow> interval \<times> rat" where
  "decode_bit char_decoded msk st = (case st of ((lo, hi), ip_range) \<Rightarrow>
     let ip_range' = fdiv ip_range 2;
         mid = fdiv (fadd lo hi) 2
     in if char_decoded AND msk \<noteq> 0 then ((mid, hi), ip_range') else ((lo, mid), ip_range'))"

fun decode_loop :: "string \<Rightarrow> interval \<times> rat \<Rightarrow> py_error + interval \<times> rat" where
  "decode_loop [] st = Inr st"
| "decode_loop (char # rest) st =
     (case decodemap char of
        None \<Rightarrow> Inl KeyError
      | Some char_decoded \<Rightarrow> decode_loop rest (fold (decode_bit char_decoded) [4, 2, 1] st))"

definition decode_exactly :: "string \<Rightarrow> py_error + rat \<times> rat" where
  "decode_exactly ipbin =
     (let ip_interval = (0, 4294967295);
          ip_range = fdiv (fadd (fst ip_interval) (snd ip_interval)) 2
      in case decode_loop ipbin (ip_interval, ip_range) of
           Inl e \<Rightarrow> Inl e
         | Inr ((lo, hi), ip_range') \<Rightarrow> Inr (fdiv (fadd lo hi) 2, ip_range'))"

text \<open>
  \<^verbatim>\<open>
  def decode(ipbin):
      ip_value, _ = decode_exactly(ipbin)
      return ip_value
  \<close>
\<close>

definition decode :: "string \<Rightarrow> py_error + rat" where
  "decode ipbin = (case decode_exactly ipbin of Inl e \<Rightarrow> Inl e | Inr (ip_value, _) \<Rightarrow> Inr ip_value)"

section \<open>Encoding\<close>

text \<open>
  \<^verbatim>\<open>
  def encode(ip_integer, precision=10):
      precision = min(precision, 10)
      ip_interval = (0.0, 4294967295.0)
      ipbin = []
      bits = [4, 2, 1]
      bit = 0
      char = 0
      while len(ipbin) < precision:
          mid = (ip_interval[0] + ip_interval[1]) / 2
          if ip_integer > mid:
              char |= bits[bit]
              ip_interval = (mid, ip_interval[1])
          else:
              ip_interval = (ip_interval[0], mid)
          if bit < 2:
              bit += 1
          else:
              ipbin += __base32[char]
              bit = 0
              char = 0
      return ''.join(ipbin)
  \<close>
  \<^verbatim>\<open>ip_integer\<close> is a Python number, an \<^verbatim>\<open>int\<close> or a finite \<^verbatim>\<open>float\<close>: a rational.
  Python compares an \<^verbatim>\<open>int\<close> with a \<^verbatim>\<open>float\<close> exactly, so \<^verbatim>\<open>ip_integer > mid\<close> is
  the comparison of rationals. \<open>encode_bit\<close> is the first \<^verbatim>\<open>if\<close> of the loop body;
  \<open>encode_loop\<close> is the \<^verbatim>\<open>while\<close> loop on the state
  \<^verbatim>\<open>(ip_interval, ipbin, bit, char)\<close>. The loop keeps \<^verbatim>\<open>bit\<close> in \<open>{0, 1, 2}\<close> and
  \<^verbatim>\<open>char\<close> below \<open>8\<close> (lemma \<open>encode_char_less_8\<close>), so both subscripts are in range.
\<close>

definition encode_bit :: "rat \<Rightarrow> interval \<Rightarrow> nat \<Rightarrow> nat \<Rightarrow> interval \<times> nat" where
  "encode_bit ip_integer ip_interval bitn char =
     (let mid = fdiv (fadd (fst ip_interval) (snd ip_interval)) 2
      in if ip_integer > mid then ((mid, snd ip_interval), char OR ([4, 2, 1] ! bitn))
         else ((fst ip_interval, mid), char))"

function encode_loop :: "rat \<Rightarrow> int \<Rightarrow> interval \<Rightarrow> string \<Rightarrow> nat \<Rightarrow> nat \<Rightarrow> string" where
  "encode_loop ip_integer precision ip_interval ipbin bitn char =
     (if int (length ipbin) < precision then
        (case encode_bit ip_integer ip_interval bitn char of (ip_interval', char') \<Rightarrow>
           if bitn < 2 then encode_loop ip_integer precision ip_interval' ipbin (bitn + 1) char'
           else encode_loop ip_integer precision ip_interval' (ipbin @ [base32 ! char']) 0 0)
      else ipbin)"
  by pat_completeness auto
termination
proof (relation "measure (\<lambda>(x, p, iv, ipbin, bitn, char). 3 * nat (p - int (length ipbin)) - min bitn 2)")
  show "wf (measure (\<lambda>(x, p, iv, ipbin, bitn, char). 3 * nat (p - int (length ipbin)) - min bitn 2))"
    by simp
next
  fix ip_integer :: rat and precision :: int and ip_interval :: interval and ipbin :: string
    and bitn char :: nat and x :: "interval \<times> nat" and iv' :: interval and char' :: nat
  assume "int (length ipbin) < precision" "bitn < 2"
  then show "((ip_integer, precision, iv', ipbin, bitn + 1, char'), ip_integer, precision, ip_interval, ipbin, bitn, char)
    \<in> measure (\<lambda>(x, p, iv, ipbin, bitn, char). 3 * nat (p - int (length ipbin)) - min bitn 2)"
    by simp
next
  fix ip_integer :: rat and precision :: int and ip_interval :: interval and ipbin :: string
    and bitn char :: nat and x :: "interval \<times> nat" and iv' :: interval and char' :: nat
  assume "int (length ipbin) < precision" "\<not> bitn < 2"
  then show "((ip_integer, precision, iv', ipbin @ [base32 ! char'], 0, 0), ip_integer, precision, ip_interval, ipbin, bitn, char)
    \<in> measure (\<lambda>(x, p, iv, ipbin, bitn, char). 3 * nat (p - int (length ipbin)) - min bitn 2)"
    by simp
qed

declare encode_loop.simps [simp del]

definition encode :: "rat \<Rightarrow> int \<Rightarrow> string" where
  "encode ip_integer precision = encode_loop ip_integer (min precision 10) (0, 4294967295) [] 0 0"

section \<open>Notions used in the proofs\<close>

text \<open>A rational is a double when rounding leaves it unchanged.\<close>

definition is_double :: "rat \<Rightarrow> bool" where
  "is_double q \<longleftrightarrow> round_double q = q"

text \<open>Halving a float, the statement \<^verbatim>\<open>ip_range /= 2\<close>.\<close>

definition halve :: "rat \<Rightarrow> rat" where
  "halve r = fdiv r 2"

text \<open>One bisection step on an interval: keep the upper half or the lower half.\<close>

definition bisect :: "interval \<Rightarrow> bool \<Rightarrow> interval" where
  "bisect iv up = (if up then (fdiv (fadd (fst iv) (snd iv)) 2, snd iv)
                   else (fst iv, fdiv (fadd (fst iv) (snd iv)) 2))"

text \<open>
  Three iterations of the \<^verbatim>\<open>while\<close> loop of \<^verbatim>\<open>encode\<close>, from \<^verbatim>\<open>bit = 0\<close> and
  \<^verbatim>\<open>char = 0\<close>, produce one character; \<open>encode_chars\<close> iterates this \<open>n\<close> times and also
  returns the final interval. Lemma \<open>encode_loop_chars\<close> shows that the loop computes it.
\<close>

definition encode_char :: "rat \<Rightarrow> interval \<Rightarrow> interval \<times> nat" where
  "encode_char x iv =
     (case encode_bit x iv 0 0 of (iv1, c1) \<Rightarrow>
      case encode_bit x iv1 1 c1 of (iv2, c2) \<Rightarrow> encode_bit x iv2 2 c2)"

fun encode_chars :: "rat \<Rightarrow> nat \<Rightarrow> interval \<Rightarrow> string \<times> interval" where
  "encode_chars x 0 iv = ([], iv)"
| "encode_chars x (Suc n) iv =
     (let r = encode_char x iv; rest = encode_chars x n (fst r)
      in (base32 ! snd r # fst rest, snd rest))"

text \<open>
  The invariant of the bisection in \<^verbatim>\<open>encode\<close> after \<open>k\<close> steps: both bounds are doubles
  between \<open>0\<close> and \<open>4294967295\<close>, the address lies between them, the interval is at most
  \<open>2 ^ (32 - k)\<close> wide and its width differs from \<open>4294967295 / 2 ^ k\<close> by at most \<open>2 ^ -21\<close>.
\<close>

definition enc_inv :: "rat \<Rightarrow> nat \<Rightarrow> interval \<Rightarrow> bool" where
  "enc_inv x k iv \<longleftrightarrow>
     is_double (fst iv) \<and> is_double (snd iv) \<and> 0 \<le> fst iv \<and> fst iv \<le> x \<and> x \<le> snd iv \<and>
     snd iv \<le> 4294967295 \<and> snd iv - fst iv \<le> 2 ^ (32 - k) \<and>
     snd iv - fst iv - 4294967295 / 2 ^ k \<le> 1 / 2 ^ 21 \<and>
     - (1 / 2 ^ 21) \<le> snd iv - fst iv - 4294967295 / 2 ^ k"

section \<open>Notions used for the addresses\<close>

text \<open>
  The fields of a string between its dots, as \<^verbatim>\<open>s.split('.')\<close> returns them. A field is
  a C numeral when \<^verbatim>\<open>strtoul\<close> with base 0 reads all of it; \<open>aton_fields\<close> is the loop
  of \<^verbatim>\<open>inet_aton\<close> on the list of fields (lemma \<open>inet_aton_loop_fields\<close>).
\<close>

fun split_dots :: "string \<Rightarrow> string list" where
  "split_dots [] = [[]]"
| "split_dots (c # cs) =
     (if c = CHR ''.'' then [] # split_dots cs
      else (c # hd (split_dots cs)) # tl (split_dots cs))"

definition c_numeral :: "string \<Rightarrow> bool" where
  "c_numeral f \<longleftrightarrow> f \<noteq> [] \<and> isdigit (hd f) \<and> snd (strtoul0 f) = []"

definition c_value :: "string \<Rightarrow> nat" where
  "c_value f = fst (strtoul0 f)"

fun aton_fields :: "nat list \<Rightarrow> string list \<Rightarrow> nat option" where
  "aton_fields parts [] = None"
| "aton_fields parts [f] =
     (if c_numeral f \<and> c_value f \<le> 0xffffffff then inet_aton_finish parts (c_value f) else None)"
| "aton_fields parts (f # g # fs) =
     (if c_numeral f \<and> c_value f \<le> 0xff \<and> length parts \<le> 2
      then aton_fields (parts @ [c_value f]) (g # fs) else None)"

text \<open>The dotted quad of four octets, each in decimal without leading zeros.\<close>

definition dotted :: "nat \<Rightarrow> nat \<Rightarrow> nat \<Rightarrow> nat \<Rightarrow> string" where
  "dotted a b c d = py_str a @ ''.'' @ py_str b @ ''.'' @ py_str c @ ''.'' @ py_str d"

text \<open>The \<open>k\<close> last hexadecimal digits and the \<open>k\<close> last bytes of a number.\<close>

fun pdigits :: "nat \<Rightarrow> nat \<Rightarrow> nat list" where
  "pdigits 0 m = []"
| "pdigits (Suc k) m = pdigits k (m div 16) @ [m mod 16]"

fun pbytes :: "nat \<Rightarrow> nat \<Rightarrow> nat list" where
  "pbytes 0 m = []"
| "pbytes (Suc k) m = pbytes k (m div 256) @ [m mod 256]"

text \<open>
  A dotted quad as the specification describes it: four fields of decimal digits, each with
  a value of at most 255. It is canonical when no field has a leading zero.
\<close>

definition decimal_value :: "string \<Rightarrow> nat" where
  "decimal_value f = fold (\<lambda>c a. a * 10 + (of_char c - 48)) f 0"

definition decimal_field :: "string \<Rightarrow> bool" where
  "decimal_field f \<longleftrightarrow> f \<noteq> [] \<and> (\<forall>c\<in>set f. isdigit c)"

definition dotted_quad :: "string \<Rightarrow> bool" where
  "dotted_quad s \<longleftrightarrow>
     length (split_dots s) = 4 \<and>
     (\<forall>f\<in>set (split_dots s). decimal_field f \<and> decimal_value f \<le> 255)"

definition no_leading_zero :: "string \<Rightarrow> bool" where
  "no_leading_zero f \<longleftrightarrow> f = ''0'' \<or> hd f \<noteq> CHR ''0''"

definition canonical_quad :: "string \<Rightarrow> bool" where
  "canonical_quad s \<longleftrightarrow> dotted_quad s \<and> (\<forall>f\<in>set (split_dots s). no_leading_zero f)"


section \<open>Facts about rounding\<close>

lemma rhe_of_int: "round_half_even (of_int n) = n"
  by (simp add: round_half_even_def)

lemma rhe_error: "\<bar>of_int (round_half_even y) - y\<bar> \<le> 1 / 2"
proof -
  define f where "f = \<lfloor>y\<rfloor>"
  have "of_int f \<le> y" "y < of_int f + 1" unfolding f_def by linarith+
  then show ?thesis
    unfolding round_half_even_def Let_def f_def[symmetric]
    by (auto simp: abs_if)
qed

lemma powi2_less_iff: "(2::rat) powi m < 2 powi n \<longleftrightarrow> m < n"
proof
  assume h: "(2::rat) powi m < 2 powi n"
  show "m < n"
  proof (rule ccontr)
    assume "\<not> m < n"
    then have "n \<le> m" by simp
    then have "(2::rat) powi n \<le> 2 powi m" by (intro power_int_increasing) auto
    with h show False by simp
  qed
next
  assume "m < n"
  then show "(2::rat) powi m < 2 powi n" by (intro power_int_strict_increasing) auto
qed

lemma powi2_le_iff: "(2::rat) powi m \<le> 2 powi n \<longleftrightarrow> m \<le> n"
  using powi2_less_iff[of n m] by (auto simp: not_less[symmetric])

lemma rhe_le_int: "y \<le> of_int n \<Longrightarrow> round_half_even y \<le> n"
proof -
  assume h: "y \<le> of_int n"
  show ?thesis
  proof (cases "y = of_int n")
    case True then show ?thesis by (simp add: rhe_of_int)
  next
    case False
    with h have "y < of_int n" by simp
    then have "\<lfloor>y\<rfloor> < n" by (simp add: floor_less_iff)
    then show ?thesis by (auto simp: round_half_even_def Let_def)
  qed
qed

lemma rhe_ge_int: "of_int n \<le> y \<Longrightarrow> n \<le> round_half_even y"
proof -
  assume h: "of_int n \<le> y"
  then have "n \<le> \<lfloor>y\<rfloor>" by (simp add: le_floor_iff)
  then show ?thesis by (auto simp: round_half_even_def Let_def)
qed

lemma ilog2_bounds:
  assumes "0 < q"
  shows "2 powi ilog2 q \<le> q" and "q < 2 powi (ilog2 q + 1)"
proof -
  obtain a b where ab: "quotient_of q = (a, b)" by (cases "quotient_of q")
  then have b: "0 < b" and q: "q = of_int a / of_int b"
    using quotient_of_denom_pos quotient_of_div by auto
  with assms have a: "0 < a" by (simp add: zero_less_divide_iff)
  define la lb where "la = bitlen a" and "lb = bitlen b"
  have la: "1 \<le> la" and lb: "1 \<le> lb"
    using a b bitlen_eq_zero_iff[of a] bitlen_eq_zero_iff[of b] bitlen_nonneg[of a] bitlen_nonneg[of b]
    by (auto simp: la_def lb_def)
  have ba: "(2::int) ^ nat (la - 1) \<le> a" "a < 2 ^ nat la"
    and bb: "(2::int) ^ nat (lb - 1) \<le> b" "b < 2 ^ nat lb"
    using bitlen_bounds[OF a] bitlen_bounds[OF b] by (auto simp: la_def lb_def)
  have ra: "(2::rat) powi (la - 1) \<le> of_int a" "of_int a < (2::rat) powi la"
  proof -
    have "(of_int ((2::int) ^ nat (la - 1)) :: rat) \<le> of_int a" using ba(1) by (simp only: of_int_le_iff)
    then show "(2::rat) powi (la - 1) \<le> of_int a" using la by (simp add: power_int_def)
    have "(of_int a :: rat) < of_int ((2::int) ^ nat la)" using ba(2) by (simp only: of_int_less_iff)
    then show "of_int a < (2::rat) powi la" using la by (simp add: power_int_def)
  qed
  have rb: "(2::rat) powi (lb - 1) \<le> of_int b" "of_int b < (2::rat) powi lb"
  proof -
    have "(of_int ((2::int) ^ nat (lb - 1)) :: rat) \<le> of_int b" using bb(1) by (simp only: of_int_le_iff)
    then show "(2::rat) powi (lb - 1) \<le> of_int b" using lb by (simp add: power_int_def)
    have "(of_int b :: rat) < of_int ((2::int) ^ nat lb)" using bb(2) by (simp only: of_int_less_iff)
    then show "of_int b < (2::rat) powi lb" using lb by (simp add: power_int_def)
  qed
  have bpos: "(0::rat) < of_int b" using b by simp
  have up: "q < 2 powi (la - lb + 1)"
  proof -
    have "q < 2 powi la / of_int b" unfolding q using ra(2) bpos by (simp add: divide_strict_right_mono)
    also have "\<dots> \<le> 2 powi la / 2 powi (lb - 1)"
      using rb(1) by (simp add: frac_le)
    also have "\<dots> = 2 powi (la - lb + 1)"
      by (simp add: power_int_diff[symmetric] algebra_simps)
    finally show ?thesis .
  qed
  have lo: "2 powi (la - lb - 1) < q"
  proof -
    have "(2::rat) powi (la - lb - 1) = 2 powi (la - 1) / 2 powi lb"
      by (simp add: power_int_diff[symmetric] algebra_simps)
    also have "\<dots> < 2 powi (la - 1) / of_int b"
      using rb(2) bpos by (simp add: frac_less2)
    also have "\<dots> \<le> q" unfolding q using ra(1) bpos by (simp add: divide_right_mono)
    finally show ?thesis .
  qed
  have il: "ilog2 q = (if 2 powi (la - lb) \<le> q then la - lb else la - lb - 1)"
    by (simp add: ilog2_def ab la_def lb_def Let_def)
  show "2 powi ilog2 q \<le> q" using lo by (auto simp: il)
  show "q < 2 powi (ilog2 q + 1)" using up by (auto simp: il not_le)
qed

lemma ilog2_unique:
  assumes "2 powi e \<le> q" "q < 2 powi (e + 1)"
  shows "ilog2 q = e"
proof -
  have q: "0 < q" using assms(1) by (smt (verit) zero_less_power_int zero_less_numeral order_less_le_trans)
  note b = ilog2_bounds[OF q]
  have "(2::rat) powi e < 2 powi (ilog2 q + 1)" using assms(1) b(2) by simp
  then have 1: "e < ilog2 q + 1" by (simp only: powi2_less_iff)
  have "(2::rat) powi ilog2 q < 2 powi (e + 1)" using assms(2) b(1) by simp
  then have 2: "ilog2 q < e + 1" by (simp only: powi2_less_iff)
  from 1 2 show ?thesis by simp
qed


lemma powi2_pos: "(0::rat) < 2 powi n"
  by simp

lemma ilog2_mono:
  assumes "0 < s" "s \<le> r"
  shows "ilog2 s \<le> ilog2 r"
proof -
  have r: "0 < r" using assms by simp
  have "(2::rat) powi ilog2 s \<le> s" using ilog2_bounds(1)[OF assms(1)] .
  also have "s \<le> r" by fact
  also have "r < 2 powi (ilog2 r + 1)" using ilog2_bounds(2)[OF r] .
  finally have "ilog2 s < ilog2 r + 1" by (simp only: powi2_less_iff)
  then show ?thesis by simp
qed

lemma ulp_exponent_mono:
  assumes "0 < s" "s \<le> r"
  shows "ulp_exponent s \<le> ulp_exponent r"
  using ilog2_mono[OF assms] assms by (simp add: ulp_exponent_def)

lemma powi2_split: "u \<le> v \<Longrightarrow> (2::rat) powi v = of_int (2 ^ nat (v - u)) * 2 powi u"
proof -
  assume "u \<le> v"
  then have "(2::rat) powi v = 2 powi (v - u) * 2 powi u"
    by (simp add: power_int_add[symmetric])
  also have "(2::rat) powi (v - u) = of_int (2 ^ nat (v - u))"
    using \<open>u \<le> v\<close> by (simp add: power_int_def)
  finally show ?thesis .
qed

text \<open>A multiple of the unit in the last place rounds to itself.\<close>
lemma round_double_on_grid:
  assumes "q = of_int n * 2 powi v" "ulp_exponent q \<le> v"
  shows "round_double q = q"
proof -
  define u where "u = ulp_exponent q"
  have "q = of_int (n * 2 ^ nat (v - u)) * 2 powi u"
    using assms(2) powi2_split[of u v] by (simp add: assms(1) u_def)
  then have "q / 2 powi u = of_int (n * 2 ^ nat (v - u))"
    by (simp add: field_simps)
  then have "round_half_even (q / 2 powi u) = n * 2 ^ nat (v - u)"
    by (simp only: rhe_of_int)
  then show ?thesis
    unfolding round_double_def u_def[symmetric]
    using \<open>q = of_int (n * 2 ^ nat (v - u)) * 2 powi u\<close> by simp
qed

lemma ilog2_int_powi:
  assumes "0 < n"
  shows "ilog2 (of_int n * 2 powi v) = bitlen n - 1 + v"
proof (rule ilog2_unique)
  have b: "(2::int) ^ nat (bitlen n - 1) \<le> n" "n < 2 ^ nat (bitlen n)"
    using bitlen_bounds[OF assms] by auto
  have l: "1 \<le> bitlen n"
    using assms bitlen_eq_zero_iff[of n] bitlen_nonneg[of n] by auto
  have "(of_int ((2::int) ^ nat (bitlen n - 1)) :: rat) \<le> of_int n"
    using b(1) by (simp only: of_int_le_iff)
  then have 1: "(2::rat) powi (bitlen n - 1) \<le> of_int n"
    using l by (simp add: power_int_def)
  have "(of_int n :: rat) < of_int ((2::int) ^ nat (bitlen n))"
    using b(2) by (simp only: of_int_less_iff)
  then have 2: "(of_int n :: rat) < 2 powi (bitlen n)"
    using l by (simp add: power_int_def)
  have "(2::rat) powi (bitlen n - 1 + v) = 2 powi (bitlen n - 1) * 2 powi v"
    by (simp add: power_int_add)
  also have "\<dots> \<le> of_int n * 2 powi v"
    using 1 by (simp add: mult_right_mono)
  finally show "(2::rat) powi (bitlen n - 1 + v) \<le> of_int n * 2 powi v" .
  have "of_int n * (2::rat) powi v < 2 powi (bitlen n) * 2 powi v"
    using 2 by (simp add: mult_strict_right_mono)
  also have "\<dots> = 2 powi (bitlen n - 1 + v + 1)"
    by (simp add: power_int_add[symmetric])
  finally show "of_int n * (2::rat) powi v < 2 powi (bitlen n - 1 + v + 1)" .
qed

lemma bitlen_le_53:
  assumes "0 < n" "n < 2 ^ 53"
  shows "bitlen n \<le> 53"
proof (rule ccontr)
  assume "\<not> bitlen n \<le> 53"
  then have "54 \<le> bitlen n" by simp
  then have "53 \<le> nat (bitlen n - 1)" by simp
  then have "(2::int) ^ 53 \<le> 2 ^ nat (bitlen n - 1)"
    by (intro power_increasing) auto
  also have "\<dots> \<le> n" using bitlen_bounds[OF assms(1)] by simp
  finally show False using assms(2) by simp
qed

text \<open>Every number with a significand below \<open>2^53\<close> and an exponent of at least
  \<open>-1074\<close> is a double.\<close>
lemma is_double_int_powi_pos:
  assumes "0 \<le> n" "n < 2 ^ 53" "- 1074 \<le> v"
  shows "is_double (of_int n * 2 powi v)"
proof (cases "n = 0")
  case True
  have "round_double 0 = 0" by (rule round_double_on_grid[where n = 0 and v = "ulp_exponent 0"]) auto
  then show ?thesis using True by (simp add: is_double_def)
next
  case False
  with assms have n: "0 < n" by simp
  define q :: rat where "q = of_int n * 2 powi v"
  have q: "0 < q" using n by (simp add: q_def)
  have "ilog2 q = bitlen n - 1 + v" unfolding q_def by (rule ilog2_int_powi[OF n])
  moreover have "bitlen n \<le> 53" by (rule bitlen_le_53[OF n assms(2)])
  ultimately have "ulp_exponent q \<le> v"
    using q assms(3) by (simp add: ulp_exponent_def)
  then show ?thesis
    unfolding is_double_def q_def[symmetric] by (intro round_double_on_grid[where n = n and v = v]) (simp add: q_def)
qed

lemma round_double_0: "round_double 0 = 0"
  by (rule round_double_on_grid[where n = 0 and v = "ulp_exponent 0"]) auto

lemma round_double_nonneg: "0 \<le> q \<Longrightarrow> 0 \<le> round_double q"
proof -
  assume "0 \<le> q"
  then have "of_int 0 \<le> q / 2 powi ulp_exponent q" by simp
  then have "0 \<le> round_half_even (q / 2 powi ulp_exponent q)" by (rule rhe_ge_int)
  then show ?thesis by (simp add: round_double_def)
qed

text \<open>A double is a multiple of the unit in the last place of every smaller positive number.\<close>
lemma double_on_finer_grid:
  assumes "is_double b" "0 < m" "m \<le> b"
  shows "\<exists>n. b = of_int n * 2 powi ulp_exponent m"
proof -
  define N where "N = round_half_even (b / 2 powi ulp_exponent b)"
  have b: "b = of_int N * 2 powi ulp_exponent b"
    using assms(1) by (simp add: is_double_def round_double_def N_def)
  have "ulp_exponent m \<le> ulp_exponent b" by (rule ulp_exponent_mono[OF assms(2,3)])
  from powi2_split[OF this] b
  have "b = of_int (N * 2 ^ nat (ulp_exponent b - ulp_exponent m)) * 2 powi ulp_exponent m"
    by simp
  then show ?thesis ..
qed

lemma round_double_le:
  assumes "is_double r" "0 \<le> s" "s \<le> r"
  shows "round_double s \<le> r"
proof (cases "s = 0")
  case True
  then show ?thesis using assms by (simp add: round_double_0)
next
  case False
  with assms have s: "0 < s" by simp
  obtain n where n: "r = of_int n * 2 powi ulp_exponent s"
    using double_on_finer_grid[OF assms(1) s assms(3)] by blast
  have "s / 2 powi ulp_exponent s \<le> r / 2 powi ulp_exponent s"
    using assms(3) by (simp add: divide_right_mono)
  also have "\<dots> = of_int n" by (simp add: n)
  finally have "round_half_even (s / 2 powi ulp_exponent s) \<le> n" by (rule rhe_le_int)
  then have "(of_int (round_half_even (s / 2 powi ulp_exponent s)) :: rat) \<le> of_int n"
    by (simp only: of_int_le_iff)
  then show ?thesis
    unfolding round_double_def n by (simp add: mult_right_mono)
qed

lemma round_double_is_double:
  assumes "0 \<le> q"
  shows "is_double (round_double q)"
proof (cases "q = 0")
  case True
  then show ?thesis by (simp add: round_double_0 is_double_def)
next
  case False
  with assms have q: "0 < q" by simp
  define u where "u = ulp_exponent q"
  define N where "N = round_half_even (q / 2 powi u)"
  have rd: "round_double q = of_int N * 2 powi u"
    by (simp add: round_double_def N_def u_def)
  have u: "ilog2 q - 52 \<le> u" "- 1074 \<le> u"
    using q by (auto simp: u_def ulp_exponent_def)
  have "q < 2 powi (ilog2 q + 1)" by (rule ilog2_bounds(2)[OF q])
  also have "\<dots> \<le> 2 powi (u + 53)" using u(1) by (simp only: powi2_le_iff)
  also have "\<dots> = of_int (2 ^ 53) * 2 powi u" by (simp add: power_int_add)
  finally have "q / 2 powi u \<le> of_int (2 ^ 53)" by (simp add: field_simps)
  then have N1: "N \<le> 2 ^ 53" unfolding N_def by (rule rhe_le_int)
  have "of_int 0 \<le> q / 2 powi u" using q by simp
  then have N0: "0 \<le> N" unfolding N_def by (rule rhe_ge_int)
  show ?thesis
  proof (cases "N = 2 ^ 53")
    case True
    have "round_double q = of_int (2 ^ 52) * 2 powi (u + 1)"
      by (simp add: rd True power_int_add)
    moreover have "is_double (of_int (2 ^ 52) * 2 powi (u + 1))"
      using u(2) by (intro is_double_int_powi_pos) auto
    ultimately show ?thesis by simp
  next
    case False
    with N1 have "N < 2 ^ 53" by simp
    then show ?thesis unfolding rd using N0 u(2) by (intro is_double_int_powi_pos) auto
  qed
qed

lemma ulp_exponent_half:
  assumes "1 \<le> s"
  shows "ulp_exponent (s / 2) = ulp_exponent s - 1"
proof -
  have s: "0 < s" using assms by simp
  have "(2::rat) powi 0 \<le> s" using assms by simp
  also have "s < 2 powi (ilog2 s + 1)" by (rule ilog2_bounds(2)[OF s])
  finally have e: "0 \<le> ilog2 s" by (simp only: powi2_less_iff)
  have "ilog2 (s / 2) = ilog2 s - 1"
  proof (rule ilog2_unique)
    have "(2::rat) powi (ilog2 s - 1) = 2 powi ilog2 s / 2" by (simp add: power_int_diff)
    also have "\<dots> \<le> s / 2" using ilog2_bounds(1)[OF s] by simp
    finally show "(2::rat) powi (ilog2 s - 1) \<le> s / 2" .
    have "s / 2 < 2 powi (ilog2 s + 1) / 2" using ilog2_bounds(2)[OF s] by simp
    also have "\<dots> = 2 powi (ilog2 s - 1 + 1)" by (simp add: power_int_add)
    finally show "s / 2 < 2 powi (ilog2 s - 1 + 1)" .
  qed
  then show ?thesis using e s by (simp add: ulp_exponent_def)
qed

text \<open>Halving a sum of at least one is exact: the midpoint \<open>(a + b) / 2\<close> of the program
  is the correctly rounded midpoint.\<close>
lemma midpoint_single_rounding:
  assumes "0 \<le> a" "0 \<le> b" "1 \<le> a + b"
  shows "fdiv (fadd a b) 2 = round_double ((a + b) / 2)"
proof -
  define s where "s = a + b"
  have s: "1 \<le> s" using assms by (simp add: s_def)
  have u: "ulp_exponent (s / 2) = ulp_exponent s - 1" by (rule ulp_exponent_half[OF s])
  have "s / 2 / 2 powi (ulp_exponent s - 1) = s / 2 powi ulp_exponent s"
    by (simp add: power_int_diff)
  then have h: "round_double (s / 2) = round_double s / 2"
    by (simp add: round_double_def u power_int_diff)
  have "is_double (round_double (s / 2))"
    using s by (intro round_double_is_double) simp
  then have "round_double (round_double s / 2) = round_double s / 2"
    by (simp add: is_double_def h)
  then show ?thesis by (simp add: fdiv_def fadd_def s_def[symmetric] h)
qed

lemma rhe_lt_half: "y < of_int n + 1 / 2 \<Longrightarrow> round_half_even y \<le> n"
proof -
  assume h: "y < of_int n + 1 / 2"
  define f where "f = \<lfloor>y\<rfloor>"
  have f: "of_int f \<le> y" "y < of_int f + 1" unfolding f_def by linarith+
  have "of_int f < (of_int n :: rat) + 1" using f(1) h by linarith
  then have "(of_int f :: rat) < of_int (n + 1)" by simp
  then have fn: "f < n + 1" by (simp only: of_int_less_iff)
  show ?thesis
  proof (cases "f = n")
    case True
    with h have "y - of_int f < 1 / 2" by simp
    then show ?thesis
      unfolding round_half_even_def Let_def f_def[symmetric] using True by simp
  next
    case False
    with fn have "f + 1 \<le> n" by simp
    then show ?thesis
      unfolding round_half_even_def Let_def f_def[symmetric] by auto
  qed
qed

lemma ulp_exponent_upper:
  assumes "0 < m" "m < 2 powi (e + 1)" "- 1022 \<le> e"
  shows "ulp_exponent m \<le> e - 52"
proof -
  have "(2::rat) powi ilog2 m \<le> m" by (rule ilog2_bounds(1)[OF assms(1)])
  also note assms(2)
  finally have "ilog2 m < e + 1" by (simp only: powi2_less_iff)
  then show ?thesis using assms(1,3) by (simp add: ulp_exponent_def)
qed

text \<open>The rounded midpoint is at most \<open>2^-22\<close> away from the exact one below \<open>2^32\<close>.\<close>
lemma midpoint_error:
  assumes "0 \<le> a" "0 \<le> b" "1 \<le> a + b" "a + b < 2 ^ 33"
  shows "\<bar>fdiv (fadd a b) 2 - (a + b) / 2\<bar> \<le> 1 / 2 ^ 22"
proof -
  define m where "m = (a + b) / 2"
  define u where "u = ulp_exponent m"
  have m: "0 < m" "m < 2 powi (31 + 1)" using assms by (auto simp: m_def)
  have u: "u \<le> - 21" using ulp_exponent_upper[OF m] by (simp add: u_def)
  have c: "fdiv (fadd a b) 2 = of_int (round_half_even (m / 2 powi u)) * 2 powi u"
    using midpoint_single_rounding[OF assms(1-3)] by (simp add: round_double_def m_def u_def)
  have "\<bar>of_int (round_half_even (m / 2 powi u)) * 2 powi u - m\<bar>
      = \<bar>of_int (round_half_even (m / 2 powi u)) - m / 2 powi u\<bar> * 2 powi u"
    by (simp add: abs_mult[symmetric] field_simps del: abs_mult)
  also have "\<dots> \<le> 1 / 2 * 2 powi u"
    by (intro mult_right_mono rhe_error) simp
  also have "(2::rat) powi u \<le> 2 powi (- 21)" using u by (simp only: powi2_le_iff)
  finally show ?thesis unfolding c m_def[symmetric] by (simp add: power_int_minus field_simps)
qed

text \<open>Bisection never makes a half wider than half a power of two that bounds the whole.\<close>
lemma midpoint_width:
  assumes "is_double b" "0 \<le> a" "a \<le> b" "1 \<le> a + b" "b < 2 ^ 33" "b - a \<le> 2 * 2 ^ d"
  shows "fdiv (fadd a b) 2 - a \<le> 2 ^ d" and "b - fdiv (fadd a b) 2 \<le> 2 ^ d"
proof -
  define m where "m = (a + b) / 2"
  define u where "u = ulp_exponent m"
  have m: "0 < m" "m \<le> b" using assms by (auto simp: m_def)
  have "m < 2 powi (32 + 1)" using m(2) assms(5) by simp
  from ulp_exponent_upper[OF m(1) this] have u: "u \<le> 0" by (simp add: u_def)
  obtain nb where nb: "b = of_int nb * 2 powi u"
    using double_on_finer_grid[OF assms(1) m] unfolding u_def by blast
  define Dn :: int where "Dn = 2 ^ (d + nat (- u))"
  have Dn: "(2::rat) ^ d = of_int Dn * 2 powi u"
    using u by (simp add: Dn_def power_add power_int_def field_simps)
  define A where "A = a / 2 powi u"
  define y where "y = (A + of_int nb) / 2"
  have a: "a = A * 2 powi u" by (simp add: A_def)
  have y: "m / 2 powi u = y" by (simp add: m_def y_def A_def nb add_divide_distrib)
  have c: "fdiv (fadd a b) 2 = of_int (round_half_even y) * 2 powi u"
    using midpoint_single_rounding[OF assms(2) _ assms(4)] assms(2,3)
    by (simp add: round_double_def m_def[symmetric] u_def[symmetric] y)
  have "(of_int nb - A) * 2 powi u \<le> (2 * of_int Dn) * 2 powi u"
    using assms(6) unfolding Dn by (simp add: nb a algebra_simps)
  then have w: "of_int nb - A \<le> 2 * of_int Dn" by simp
  have "of_int (nb - 2 * Dn) \<le> A" using w by simp
  then have "nb - 2 * Dn \<le> \<lfloor>A\<rfloor>" by (simp only: le_floor_iff)
  then have "(of_int nb :: rat) \<le> of_int \<lfloor>A\<rfloor> + 2 * of_int Dn"
    by (metis (mono_tags) of_int_le_iff of_int_add of_int_mult of_int_numeral diff_le_eq)
  moreover have "A < of_int \<lfloor>A\<rfloor> + 1" by linarith
  ultimately have "y < of_int (\<lfloor>A\<rfloor> + Dn) + 1 / 2" by (simp add: y_def)
  then have "round_half_even y \<le> \<lfloor>A\<rfloor> + Dn" by (rule rhe_lt_half)
  then have "(of_int (round_half_even y) :: rat) \<le> of_int (\<lfloor>A\<rfloor> + Dn)" by (simp only: of_int_le_iff)
  also have "\<dots> \<le> A + of_int Dn" by simp
  finally have "(of_int (round_half_even y) :: rat) * 2 powi u \<le> (A + of_int Dn) * 2 powi u"
    by (simp add: mult_right_mono)
  then show "fdiv (fadd a b) 2 - a \<le> 2 ^ d"
    unfolding c Dn by (simp add: a algebra_simps)
  have "of_int (nb - Dn) \<le> y" using w by (simp add: y_def)
  then have "nb - Dn \<le> round_half_even y" by (rule rhe_ge_int)
  then have "(of_int (nb - Dn) :: rat) \<le> of_int (round_half_even y)" by (simp only: of_int_le_iff)
  then have "(of_int (nb - Dn) :: rat) * 2 powi u \<le> of_int (round_half_even y) * 2 powi u"
    by (simp add: mult_right_mono)
  then show "b - fdiv (fadd a b) 2 \<le> 2 ^ d"
    unfolding c Dn by (simp add: nb algebra_simps)
qed

lemma midpoint_le_upper:
  assumes "is_double b" "0 \<le> a" "a \<le> b" "1 \<le> a + b"
  shows "fdiv (fadd a b) 2 \<le> b"
proof -
  have "round_double ((a + b) / 2) \<le> b"
    using assms by (intro round_double_le) auto
  then show ?thesis using midpoint_single_rounding[OF assms(2) _ assms(4)] assms(2,3) by simp
qed

lemma midpoint_is_double:
  assumes "0 \<le> a" "0 \<le> b" "1 \<le> a + b"
  shows "is_double (fdiv (fadd a b) 2)" and "0 \<le> fdiv (fadd a b) 2"
proof -
  have "0 \<le> (a + b) / 2" using assms by simp
  then show "is_double (fdiv (fadd a b) 2)" "0 \<le> fdiv (fadd a b) 2"
    unfolding midpoint_single_rounding[OF assms]
    by (auto intro: round_double_is_double round_double_nonneg)
qed

section \<open>The loops of the codec\<close>

lemma encode_loop_char:
  assumes "int (length ipbin) < p"
  shows "encode_loop x p iv ipbin 0 0 =
    (case encode_char x iv of (iv', c) \<Rightarrow> encode_loop x p iv' (ipbin @ [base32 ! c]) 0 0)"
proof -
  obtain iv1 c1 where 1: "encode_bit x iv 0 0 = (iv1, c1)" by (cases "encode_bit x iv 0 0")
  obtain iv2 c2 where 2: "encode_bit x iv1 1 c1 = (iv2, c2)" by (cases "encode_bit x iv1 1 c1")
  obtain iv3 c3 where 3: "encode_bit x iv2 2 c2 = (iv3, c3)" by (cases "encode_bit x iv2 2 c2")
  have "encode_loop x p iv ipbin 0 0 = encode_loop x p iv1 ipbin 1 c1"
    using assms 1 by (subst encode_loop.simps) simp
  also have "\<dots> = encode_loop x p iv2 ipbin 2 c2"
    using assms 2 by (subst encode_loop.simps) (simp add: numeral_2_eq_2)
  also have "\<dots> = encode_loop x p iv3 (ipbin @ [base32 ! c3]) 0 0"
    using assms 3 by (subst encode_loop.simps) (simp add: numeral_2_eq_2)
  finally show ?thesis using 1 2 3 by (simp add: encode_char_def)
qed

lemma encode_loop_chars:
  "encode_loop x p iv ipbin 0 0 = ipbin @ fst (encode_chars x (nat (p - int (length ipbin))) iv)"
proof (induction "nat (p - int (length ipbin))" arbitrary: iv ipbin)
  case 0
  then have "\<not> int (length ipbin) < p" by simp
  then have "encode_loop x p iv ipbin 0 0 = ipbin" by (subst encode_loop.simps) simp
  then show ?case using 0 by simp
next
  case (Suc n)
  then have lt: "int (length ipbin) < p" by simp
  obtain iv' c where c: "encode_char x iv = (iv', c)" by (cases "encode_char x iv")
  have n: "n = nat (p - int (length (ipbin @ [base32 ! c])))" using Suc(2) by simp
  have "encode_loop x p iv ipbin 0 0 = encode_loop x p iv' (ipbin @ [base32 ! c]) 0 0"
    using encode_loop_char[OF lt] c by simp
  also have "\<dots> = (ipbin @ [base32 ! c]) @ fst (encode_chars x n iv')"
    using Suc(1)[OF n] n by simp
  finally show ?case using Suc(2)[symmetric] c by (simp add: Let_def)
qed

lemma encode_chars: "encode x p = fst (encode_chars x (nat (min p 10)) (0, 4294967295))"
  by (simp add: encode_def encode_loop_chars)

lemma length_encode_chars: "length (fst (encode_chars x n iv)) = n"
  by (induction n arbitrary: iv) (auto simp: Let_def)

lemma take_encode_chars:
  "m \<le> n \<Longrightarrow> take m (fst (encode_chars x n iv)) = fst (encode_chars x m iv)"
proof (induction m arbitrary: n iv)
  case 0
  then show ?case by simp
next
  case (Suc m)
  then obtain n' where n: "n = Suc n'" "m \<le> n'" by (cases n) auto
  show ?case using Suc.IH[OF n(2)] by (simp add: n(1) Let_def)
qed


lemma decodemap_eq:
  "decodemap = [CHR ''0'' \<mapsto> 0, CHR ''1'' \<mapsto> 1, CHR ''a'' \<mapsto> 2, CHR ''b'' \<mapsto> 3,
                CHR ''c'' \<mapsto> 4, CHR ''d'' \<mapsto> 5, CHR ''e'' \<mapsto> 6, CHR ''f'' \<mapsto> 7]"
  by (simp add: decodemap_def base32_def eval_nat_numeral)

lemma decodemap_None: "decodemap c = None \<longleftrightarrow> c \<notin> set base32"
  by (simp add: decodemap_eq base32_def)

lemma decodemap_base32: "c < 8 \<Longrightarrow> decodemap (base32 ! c) = Some c"
proof -
  assume "c < 8"
  then have "c \<in> {0, 1, 2, 3, 4, 5, 6, 7}" by auto
  then show ?thesis by (auto simp: decodemap_eq base32_def)
qed

lemma base32_nth_mem: "c < 8 \<Longrightarrow> base32 ! c \<in> set base32"
  by (rule nth_mem) (simp add: base32_def)

lemma encode_bit_bisect:
  "encode_bit x iv bitn char =
     (bisect iv (fdiv (fadd (fst iv) (snd iv)) 2 < x),
      if fdiv (fadd (fst iv) (snd iv)) 2 < x then char OR ([4, 2, 1] ! bitn) else char)"
  by (simp add: encode_bit_def bisect_def Let_def)

lemma decode_bit_bisect:
  "decode_bit d msk (iv, r) = (bisect iv (d AND msk \<noteq> 0), halve r)"
  by (cases iv) (simp add: decode_bit_def bisect_def Let_def halve_def)

lemma retrace_char:
  assumes "encode_char x iv = (iv', c)"
  shows "c < 8" and "fold (decode_bit c) [4, 2, 1] (iv, r) = (iv', halve (halve (halve r)))"
proof -
  define b1 where "b1 = (fdiv (fadd (fst iv) (snd iv)) 2 < x)"
  define iv1 where "iv1 = bisect iv b1"
  define b2 where "b2 = (fdiv (fadd (fst iv1) (snd iv1)) 2 < x)"
  define iv2 where "iv2 = bisect iv1 b2"
  define b3 where "b3 = (fdiv (fadd (fst iv2) (snd iv2)) 2 < x)"
  have e: "encode_char x iv =
    (bisect iv2 b3, ((if b1 then 4 else 0) OR (if b2 then 2 else 0)) OR (if b3 then 1 else 0))"
    by (simp add: encode_char_def encode_bit_bisect b1_def iv1_def b2_def iv2_def b3_def)
  from assms e have iv': "iv' = bisect iv2 b3"
    and c: "c = ((if b1 then 4 else 0) OR (if b2 then 2 else 0)) OR (if b3 then 1 else 0)"
    by simp_all
  show "c < 8" unfolding c by (cases b1; cases b2; cases b3) simp_all
  have "c AND 4 \<noteq> 0 \<longleftrightarrow> b1" "c AND 2 \<noteq> 0 \<longleftrightarrow> b2" "c AND 1 \<noteq> 0 \<longleftrightarrow> b3"
    unfolding c by (cases b1; cases b2; cases b3; simp)+
  then show "fold (decode_bit c) [4, 2, 1] (iv, r) = (iv', halve (halve (halve r)))"
    by (simp add: decode_bit_bisect iv' iv1_def iv2_def)
qed

lemma encode_chars_alphabet: "set (fst (encode_chars x n iv)) \<subseteq> set base32"
proof (induction n arbitrary: iv)
  case 0
  then show ?case by simp
next
  case (Suc n)
  obtain iv' c where c: "encode_char x iv = (iv', c)" by (cases "encode_char x iv")
  show ?case using Suc[of iv'] retrace_char(1)[OF c] by (simp add: c Let_def base32_nth_mem)
qed

lemma retrace_chars:
  "decode_loop (fst (encode_chars x n iv)) (iv, r) =
     Inr (snd (encode_chars x n iv), (halve ^^ (3 * n)) r)"
proof (induction n arbitrary: iv r)
  case 0
  then show ?case by simp
next
  case (Suc n)
  obtain iv' c where c: "encode_char x iv = (iv', c)" by (cases "encode_char x iv")
  have 3: "3 * Suc n = Suc (Suc (Suc (3 * n)))" by simp
  show ?case
    using retrace_char[OF c] Suc[of iv' "halve (halve (halve r))"]
    by (simp add: c Let_def decodemap_base32 3 funpow_swap1 del: fold_simps mult_Suc_right)
qed

lemma decode_loop_margin:
  "set t \<subseteq> set base32 \<Longrightarrow> \<exists>iv'. decode_loop t (iv, r) = Inr (iv', (halve ^^ (3 * length t)) r)"
proof (induction t arbitrary: iv r)
  case Nil
  then show ?case by simp
next
  case (Cons c t)
  then obtain d where d: "decodemap c = Some d" using decodemap_None[of c] by auto
  have 3: "3 * Suc (length t) = Suc (Suc (Suc (3 * length t)))" by simp
  have "fold (decode_bit d) [4, 2, 1] (iv, r) =
    (bisect (bisect (bisect iv (d AND 4 \<noteq> 0)) (d AND 2 \<noteq> 0)) (d AND 1 \<noteq> 0), halve (halve (halve r)))"
    by (simp add: decode_bit_bisect)
  then show ?case using Cons d by (simp add: 3 funpow_swap1 del: fold_simps mult_Suc_right)
qed

lemma decode_loop_KeyError:
  "\<exists>c\<in>set t. c \<notin> set base32 \<Longrightarrow> decode_loop t st = Inl KeyError"
proof (induction t arbitrary: st)
  case Nil
  then show ?case by simp
next
  case (Cons c t)
  show ?case
  proof (cases "decodemap c")
    case None
    then show ?thesis by simp
  next
    case (Some d)
    then have "c \<in> set base32" using decodemap_None[of c] by auto
    with Cons.prems have "\<exists>c\<in>set t. c \<notin> set base32" by auto
    then show ?thesis using Cons.IH Some by simp
  qed
qed

lemma is_double_0: "is_double 0"
  by (simp add: is_double_def round_double_0)

lemma is_double_max: "is_double 4294967295"
  using is_double_int_powi_pos[of 4294967295 0] by simp

lemma enc_inv_init: "0 \<le> x \<Longrightarrow> x \<le> 4294967295 \<Longrightarrow> enc_inv x 0 (0, 4294967295)"
  by (simp add: enc_inv_def is_double_0 is_double_max)

lemma width_lower:
  assumes "k \<le> 30"
  shows "(3::rat) \<le> 4294967295 / 2 ^ k - 1 / 2 ^ 21"
proof -
  have "(2::rat) ^ k \<le> 2 ^ 30" using assms by (intro power_increasing) auto
  then have "(4294967295::rat) / 2 ^ 30 \<le> 4294967295 / 2 ^ k"
    by (intro divide_left_mono) auto
  then show ?thesis by simp
qed

lemma enc_inv_step:
  assumes "enc_inv x k iv" "k \<le> 30"
  shows "enc_inv x (Suc k) (bisect iv (fdiv (fadd (fst iv) (snd iv)) 2 < x))"
proof -
  define lo hi where "lo = fst iv" and "hi = snd iv"
  define m where "m = fdiv (fadd lo hi) 2"
  define E where "E = (4294967295::rat) / 2 ^ k"
  have inv: "is_double lo" "is_double hi" "0 \<le> lo" "lo \<le> x" "x \<le> hi" "hi \<le> 4294967295"
    "hi - lo \<le> 2 ^ (32 - k)" "hi - lo - E \<le> 1 / 2 ^ 21" "- (1 / 2 ^ 21) \<le> hi - lo - E"
    using assms(1) unfolding enc_inv_def lo_def hi_def E_def by blast+
  have E: "3 \<le> E - 1 / 2 ^ 21" unfolding E_def by (rule width_lower[OF assms(2)])
  have tt: "(1::rat) / 2 ^ 21 = 2 * (1 / 2 ^ 22)" by simp
  have w: "3 \<le> hi - lo" using inv(9) E by linarith
  have hi0: "0 \<le> hi" and lohi: "lo \<le> hi" and s1: "1 \<le> lo + hi" and s2: "lo + hi < 2 ^ 33"
    and hi33: "hi < 2 ^ 33"
    using w inv(3,6) by auto
  have pw: "(2::rat) ^ (32 - k) = 2 * 2 ^ (31 - k)"
    using assms(2) by (simp add: power_Suc[symmetric] Suc_diff_le del: power_Suc)
  have "hi - lo \<le> 2 * 2 ^ (31 - k)" using inv(7) pw by simp
  from midpoint_width[OF inv(2,3) lohi s1 hi33 this]
  have mw: "m - lo \<le> 2 ^ (31 - k)" "hi - m \<le> 2 ^ (31 - k)" by (simp_all add: m_def)
  have "\<bar>m - (lo + hi) / 2\<bar> \<le> 1 / 2 ^ 22"
    unfolding m_def by (rule midpoint_error[OF inv(3) hi0 s1 s2])
  then have me: "m - (lo + hi) / 2 \<le> 1 / 2 ^ 22" "- (1 / 2 ^ 22) \<le> m - (lo + hi) / 2"
    by linarith+
  have mhi: "m \<le> hi" unfolding m_def by (rule midpoint_le_upper[OF inv(2,3) lohi s1])
  have md: "is_double m" "0 \<le> m"
    unfolding m_def by (rule midpoint_is_double[OF inv(3) hi0 s1])+
  have E2: "(4294967295::rat) / 2 ^ Suc k = E / 2" by (simp add: E_def)
  have k31: "32 - Suc k = 31 - k" by simp
  show ?thesis
  proof (cases "m < x")
    case True
    have b: "bisect iv (fdiv (fadd (fst iv) (snd iv)) 2 < x) = (m, hi)"
      using True by (simp add: bisect_def m_def lo_def hi_def)
    have "hi - m - E / 2 \<le> 1 / 2 ^ 21" "- (1 / 2 ^ 21) \<le> hi - m - E / 2"
      using inv(8,9) me by (simp_all add: field_simps)
    moreover have "m \<le> x" using True by simp
    ultimately show ?thesis
      unfolding b enc_inv_def fst_conv snd_conv E2 k31
      using inv(2,5,6) md mw(2) by blast
  next
    case False
    have b: "bisect iv (fdiv (fadd (fst iv) (snd iv)) 2 < x) = (lo, m)"
      using False by (simp add: bisect_def m_def lo_def hi_def)
    have "m - lo - E / 2 \<le> 1 / 2 ^ 21" "- (1 / 2 ^ 21) \<le> m - lo - E / 2"
      using inv(8,9) me by (simp_all add: field_simps)
    moreover have "x \<le> m" "m \<le> 4294967295" using False mhi inv(6) by simp_all
    ultimately show ?thesis
      unfolding b enc_inv_def fst_conv snd_conv E2 k31
      using inv(1,3,4) md mw(1) by blast
  qed
qed

lemma enc_inv_char:
  assumes "enc_inv x k iv" "k + 3 \<le> 31"
  shows "enc_inv x (k + 3) (fst (encode_char x iv))"
proof -
  define iv1 where "iv1 = bisect iv (fdiv (fadd (fst iv) (snd iv)) 2 < x)"
  define iv2 where "iv2 = bisect iv1 (fdiv (fadd (fst iv1) (snd iv1)) 2 < x)"
  define iv3 where "iv3 = bisect iv2 (fdiv (fadd (fst iv2) (snd iv2)) 2 < x)"
  have 1: "enc_inv x (Suc k) iv1" unfolding iv1_def using assms by (intro enc_inv_step) auto
  have 2: "enc_inv x (Suc (Suc k)) iv2" unfolding iv2_def using 1 assms(2) by (intro enc_inv_step) auto
  have 3: "enc_inv x (Suc (Suc (Suc k))) iv3" unfolding iv3_def using 2 assms(2) by (intro enc_inv_step) auto
  have "fst (encode_char x iv) = iv3"
    by (simp add: encode_char_def encode_bit_bisect iv1_def iv2_def iv3_def)
  then show ?thesis using 3 by (simp add: eval_nat_numeral)
qed

lemma enc_inv_chars:
  "enc_inv x k iv \<Longrightarrow> k + 3 * n \<le> 31 \<Longrightarrow> enc_inv x (k + 3 * n) (snd (encode_chars x n iv))"
proof (induction n arbitrary: k iv)
  case 0
  then show ?case by simp
next
  case (Suc n)
  have "enc_inv x (k + 3) (fst (encode_char x iv))"
    using Suc.prems by (intro enc_inv_char) auto
  from Suc.IH[OF this] Suc.prems(2) show ?case
    by (simp add: Let_def add.assoc)
qed

lemma enc_inv_final:
  assumes "enc_inv x k iv" "k \<le> 30"
  shows "\<bar>fdiv (fadd (fst iv) (snd iv)) 2 - x\<bar> \<le> 2 ^ (31 - k)"
    and "\<bar>fdiv (fadd (fst iv) (snd iv)) 2 - x\<bar> \<le> 4294967295 / 2 / 2 ^ k + 1 / 2 ^ 21"
proof -
  define lo hi where "lo = fst iv" and "hi = snd iv"
  define m where "m = fdiv (fadd lo hi) 2"
  define E where "E = (4294967295::rat) / 2 ^ k"
  have inv: "is_double lo" "is_double hi" "0 \<le> lo" "lo \<le> x" "x \<le> hi" "hi \<le> 4294967295"
    "hi - lo \<le> 2 ^ (32 - k)" "hi - lo - E \<le> 1 / 2 ^ 21" "- (1 / 2 ^ 21) \<le> hi - lo - E"
    using assms(1) unfolding enc_inv_def lo_def hi_def E_def by blast+
  have E: "3 \<le> E - 1 / 2 ^ 21" unfolding E_def by (rule width_lower[OF assms(2)])
  have tt: "(1::rat) / 2 ^ 21 = 2 * (1 / 2 ^ 22)" by simp
  have w: "3 \<le> hi - lo" using inv(9) E by linarith
  have hi0: "0 \<le> hi" and lohi: "lo \<le> hi" and s1: "1 \<le> lo + hi" and s2: "lo + hi < 2 ^ 33"
    and hi33: "hi < 2 ^ 33"
    using w inv(3,6) by auto
  have pw: "(2::rat) ^ (32 - k) = 2 * 2 ^ (31 - k)"
    using assms(2) by (simp add: power_Suc[symmetric] Suc_diff_le del: power_Suc)
  have "hi - lo \<le> 2 * 2 ^ (31 - k)" using inv(7) pw by simp
  from midpoint_width[OF inv(2,3) lohi s1 hi33 this]
  have mw: "m - lo \<le> 2 ^ (31 - k)" "hi - m \<le> 2 ^ (31 - k)" by (simp_all add: m_def)
  have "\<bar>m - (lo + hi) / 2\<bar> \<le> 1 / 2 ^ 22"
    unfolding m_def by (rule midpoint_error[OF inv(3) hi0 s1 s2])
  then have me: "m - (lo + hi) / 2 \<le> 1 / 2 ^ 22" "- (1 / 2 ^ 22) \<le> m - (lo + hi) / 2"
    by linarith+
  have "m - x \<le> 2 ^ (31 - k)" "- (2 ^ (31 - k)) \<le> m - x" using mw inv(4,5) by linarith+
  then have "\<bar>m - x\<bar> \<le> 2 ^ (31 - k)" by (simp only: abs_le_iff) simp
  then show "\<bar>fdiv (fadd (fst iv) (snd iv)) 2 - x\<bar> \<le> 2 ^ (31 - k)"
    by (simp add: m_def lo_def hi_def)
  have "m - x \<le> E / 2 + 1 / 2 ^ 21" "x - m \<le> E / 2 + 1 / 2 ^ 21"
    using me inv(4,5,8) by (simp_all add: field_simps)
  then have "\<bar>m - x\<bar> \<le> E / 2 + 1 / 2 ^ 21" by (simp only: abs_le_iff) simp
  then show "\<bar>fdiv (fadd (fst iv) (snd iv)) 2 - x\<bar> \<le> 4294967295 / 2 / 2 ^ k + 1 / 2 ^ 21"
    by (simp add: m_def lo_def hi_def E_def)
qed

lemma powi_neg_nat: "(2::rat) powi (- int n) = 1 / 2 ^ n"
  by (simp only: power_int_minus power_int_of_nat inverse_eq_divide)

lemma init_range: "fdiv (fadd 0 4294967295) 2 = 4294967295 / 2"
proof -
  have "is_double (of_int 4294967295 * 2 powi (- 1))"
    by (rule is_double_int_powi_pos) auto
  then have "round_double (4294967295 / 2) = 4294967295 / 2"
    by (simp add: is_double_def power_int_minus field_simps)
  then show ?thesis using midpoint_single_rounding[of 0 4294967295] by simp
qed

lemma halve_exact:
  "h \<le> 1073 \<Longrightarrow> (halve ^^ h) (4294967295 / 2) = 4294967295 / 2 ^ Suc h"
proof (induction h)
  case 0
  then show ?case by simp
next
  case (Suc h)
  have "is_double (of_int 4294967295 * 2 powi (- int (Suc (Suc h))))"
    using Suc.prems by (intro is_double_int_powi_pos) auto
  moreover have "of_int 4294967295 * 2 powi (- int (Suc (Suc h))) = (4294967295::rat) / 2 ^ Suc (Suc h)"
    by (simp only: powi_neg_nat)
  ultimately have "round_double (4294967295 / 2 ^ Suc (Suc h)) = 4294967295 / 2 ^ Suc (Suc h)"
    by (simp add: is_double_def)
  then have "halve (4294967295 / 2 ^ Suc h) = 4294967295 / 2 ^ Suc (Suc h)"
    by (simp add: halve_def fdiv_def)
  then show ?case using Suc by simp
qed

lemma pow8: "(8::rat) ^ n = 2 ^ (3 * n)"
proof -
  have "(8::rat) = 2 ^ 3" by simp
  then show ?thesis by (simp only: power_mult[symmetric])
qed

lemma margin_exact:
  assumes "n \<le> 357"
  shows "(halve ^^ (3 * n)) (4294967295 / 2) = 4294967295 / 2 / 8 ^ n"
proof -
  have "3 * n \<le> 1073" using assms by simp
  then show ?thesis by (simp add: halve_exact pow8)
qed

lemma decode_exactly_unfold:
  "decode_exactly t =
     (case decode_loop t ((0, 4294967295), 4294967295 / 2) of
        Inl e \<Rightarrow> Inl e
      | Inr ((lo, hi), r) \<Rightarrow> Inr (fdiv (fadd lo hi) 2, r))"
  by (simp add: decode_exactly_def init_range)

lemma decode_exactly_margin:
  assumes "set t \<subseteq> set base32"
  shows "\<exists>v. decode_exactly t = Inr (v, (halve ^^ (3 * length t)) (4294967295 / 2))"
proof -
  obtain iv' where "decode_loop t ((0, 4294967295), 4294967295 / 2)
      = Inr (iv', (halve ^^ (3 * length t)) (4294967295 / 2))"
    using decode_loop_margin[OF assms] by blast
  then show ?thesis by (cases iv') (simp add: decode_exactly_unfold)
qed

lemma decode_exactly_encode_chars:
  "decode_exactly (fst (encode_chars x n (0, 4294967295))) =
     Inr (fdiv (fadd (fst (snd (encode_chars x n (0, 4294967295))))
                     (snd (snd (encode_chars x n (0, 4294967295))))) 2,
          (halve ^^ (3 * n)) (4294967295 / 2))"
  by (cases "snd (encode_chars x n (0, 4294967295))")
     (simp add: decode_exactly_unfold retrace_chars)

text \<open>Round trip through \<open>n \<le> 10\<close> characters.\<close>
lemma roundtrip:
  assumes "0 \<le> x" "x \<le> 4294967295" "n \<le> 10"
  shows "\<exists>v. decode_exactly (fst (encode_chars x n (0, 4294967295))) = Inr (v, 4294967295 / 2 / 8 ^ n)
    \<and> \<bar>v - x\<bar> \<le> 2 ^ (31 - 3 * n) \<and> \<bar>v - x\<bar> \<le> 4294967295 / 2 / 8 ^ n + 1 / 2 ^ 21"
proof -
  define iv where "iv = snd (encode_chars x n (0, 4294967295))"
  have "enc_inv x (0 + 3 * n) iv"
    unfolding iv_def using assms by (intro enc_inv_chars enc_inv_init) auto
  then have inv: "enc_inv x (3 * n) iv" by simp
  have k: "3 * n \<le> 30" using assms(3) by simp
  have m: "(halve ^^ (3 * n)) (4294967295 / 2) = 4294967295 / 2 / 8 ^ n"
    using assms(3) by (intro margin_exact) simp
  show ?thesis
    using enc_inv_final[OF inv k] decode_exactly_encode_chars[of x n]
    by (simp add: iv_def m pow8)
qed

lemma encode_char_less_8: "snd (encode_char x iv) < 8"
  using retrace_char(1)[of x iv "fst (encode_char x iv)" "snd (encode_char x iv)"] by simp

lemma set_base32:
  "set base32 = {CHR ''0'', CHR ''1'', CHR ''a'', CHR ''b'', CHR ''c'', CHR ''d'', CHR ''e'', CHR ''f''}"
  by (simp add: base32_def)

lemma encode_of_chars:
  assumes "0 \<le> p" "p \<le> 10"
  shows "encode x p = fst (encode_chars x (nat p) (0, 4294967295))"
  using assms by (simp add: encode_chars min_def)

lemma encode_nonpos: "p \<le> 0 \<Longrightarrow> encode x p = []"
  by (simp add: encode_chars min_def)

lemma encode_above_10: "10 < p \<Longrightarrow> encode x p = encode x 10"
  by (simp add: encode_chars min_def)

lemma encode_alphabet: "set (encode x p) \<subseteq> set base32"
  by (simp add: encode_chars encode_chars_alphabet)

lemma length_encode: "length (encode x p) = nat (min p 10)"
  by (simp add: encode_chars length_encode_chars)

text \<open>The last of \<open>1074\<close> halvings of \<open>2147483647.5\<close> is a tie between two subnormal numbers.\<close>
lemma bitlen_max: "bitlen 4294967295 = 32"
  by code_simp

lemma last_halving: "halve (4294967295 / 2 ^ 1074) = 1 / 2 ^ 1043"
proof -
  define q :: rat where "q = of_int 4294967295 * 2 powi (- 1075)"
  have q: "0 < q" by (simp add: q_def)
  have "ilog2 q = bitlen 4294967295 - 1 + (- 1075)"
    unfolding q_def by (rule ilog2_int_powi) simp
  then have u: "ulp_exponent q = - 1074"
    using q by (simp add: ulp_exponent_def bitlen_max)
  have "q / 2 powi (- 1074) = of_int 4294967295 * (2 powi (- 1075) / 2 powi (- 1074))"
    by (simp add: q_def)
  also have "(2::rat) powi (- 1075) / 2 powi (- 1074) = 2 powi (- 1)"
    using power_int_diff[of "2::rat" "- 1075" "- 1074"] by simp
  finally have qd: "q / 2 powi (- 1074) = 4294967295 / 2"
    by (simp add: power_int_minus)
  have rhe: "round_half_even (4294967295 / 2) = 2147483648"
  proof -
    have "\<lfloor>4294967295 / 2 :: rat\<rfloor> = 2147483647" by (rule floor_unique) simp_all
    then show ?thesis by (simp add: round_half_even_def Let_def)
  qed
  have "round_double q = of_int (round_half_even (q / 2 powi (- 1074))) * 2 powi (- 1074)"
    unfolding round_double_def u ..
  also have "\<dots> = of_int 2147483648 * 2 powi (- 1074)"
    unfolding qd rhe ..
  also have "of_int 2147483648 = (2::rat) powi 31" by simp
  also have "(2::rat) powi 31 * 2 powi (- 1074) = 2 powi (- int 1043)"
    using power_int_add[of "2::rat" 31 "- 1074"] by simp
  also have "\<dots> = 1 / 2 ^ 1043" by (rule powi_neg_nat)
  finally have "round_double q = 1 / 2 ^ 1043" .
  moreover have "q = 4294967295 / 2 ^ 1074 / 2"
  proof -
    have "q = 4294967295 * (2 powi (- int 1075))" by (simp add: q_def)
    also have "\<dots> = 4294967295 * (1 / 2 ^ 1075)" by (simp only: powi_neg_nat)
    finally show ?thesis by simp
  qed
  ultimately show ?thesis by (simp add: halve_def fdiv_def)
qed

lemma margin_358: "(halve ^^ (3 * 358)) (4294967295 / 2) = 1 / 2 ^ 1043"
proof -
  have "(halve ^^ Suc 1073) (4294967295 / 2) = halve ((halve ^^ 1073) (4294967295 / 2))"
    by (simp only: funpow.simps o_apply)
  also have "(halve ^^ 1073) (4294967295 / 2) = 4294967295 / 2 ^ Suc 1073"
    by (rule halve_exact) simp
  finally show ?thesis using last_halving by simp
qed

section \<open>Facts about the address conversions\<close>

lemma split_dots_nonempty: "split_dots s \<noteq> []"
  by (induction s) auto

lemma split_dots_single:
  "split_dots s = [f] \<Longrightarrow> s = f \<and> CHR ''.'' \<notin> set f"
proof (induction s arbitrary: f)
  case Nil
  then show ?case by simp
next
  case (Cons c cs)
  show ?case
  proof (cases "c = CHR ''.''")
    case True
    with Cons.prems show ?thesis using split_dots_nonempty[of cs] by simp
  next
    case False
    with Cons.prems have f: "f = c # hd (split_dots cs)" and t: "tl (split_dots cs) = []" by auto
    from t have "split_dots cs = [hd (split_dots cs)]"
      using split_dots_nonempty[of cs] by (cases "split_dots cs") auto
    from Cons.IH[OF this] show ?thesis using f False by auto
  qed
qed

lemma split_dots_more:
  "split_dots s = f # g # gs \<Longrightarrow>
     \<exists>s'. s = f @ CHR ''.'' # s' \<and> split_dots s' = g # gs \<and> CHR ''.'' \<notin> set f"
proof (induction s arbitrary: f)
  case Nil
  then show ?case by simp
next
  case (Cons c cs)
  show ?case
  proof (cases "c = CHR ''.''")
    case True
    with Cons.prems show ?thesis by auto
  next
    case False
    with Cons.prems have f: "f = c # hd (split_dots cs)" and t: "tl (split_dots cs) = g # gs" by auto
    from t have "split_dots cs = hd (split_dots cs) # g # gs"
      using split_dots_nonempty[of cs] by (cases "split_dots cs") auto
    from Cons.IH[OF this] obtain s' where
      "cs = hd (split_dots cs) @ CHR ''.'' # s'" "split_dots s' = g # gs"
      "CHR ''.'' \<notin> set (hd (split_dots cs))" by blast
    then show ?thesis using f False by auto
  qed
qed

lemma digit_value_dot: "digit_value (CHR ''.'') = None"
  by (simp add: digit_value_def)

lemma strtoul_digits_append:
  assumes "t = [] \<or> digit_value (hd t) = None"
  shows "strtoul_digits base (f @ t) acc =
    (fst (strtoul_digits base f acc), snd (strtoul_digits base f acc) @ t)"
  using assms
proof (induction f arbitrary: acc)
  case Nil
  then show ?case by (cases t) auto
next
  case (Cons c f)
  then show ?case by (auto split: option.splits)
qed

lemma strtoul_digits_suffix: "set (snd (strtoul_digits base f acc)) \<subseteq> set f"
  by (induction f arbitrary: acc) (auto split: option.splits)

lemma hex_prefix_append:
  assumes "f \<noteq> []" "t = [] \<or> hd t = CHR ''.''"
  shows "hex_prefix (f @ t) = hex_prefix f"
proof (cases f)
  case Nil
  with assms show ?thesis by simp
next
  case f1: (Cons c0 f1)
  show ?thesis
  proof (cases f1)
    case Nil
    with f1 assms(2) show ?thesis by (cases t) (auto simp: hex_prefix_def split: list.splits)
  next
    case f2: (Cons x f2)
    show ?thesis
    proof (cases f2)
      case Nil
      with f1 f2 assms(2) show ?thesis
        by (cases t) (auto simp: hex_prefix_def digit_value_dot)
    next
      case (Cons h f3)
      with f1 f2 show ?thesis by (simp add: hex_prefix_def)
    qed
  qed
qed

lemma hex_prefix_length: "hex_prefix f \<Longrightarrow> 3 \<le> length f"
  by (auto simp: hex_prefix_def split: list.splits)

lemma strtoul0_append:
  assumes "f \<noteq> []" "t = [] \<or> hd t = CHR ''.''"
  shows "strtoul0 (f @ t) = (fst (strtoul0 f), snd (strtoul0 f) @ t)"
proof -
  have t: "t = [] \<or> digit_value (hd t) = None" using assms(2) digit_value_dot by auto
  obtain c cs where f: "f = c # cs" using assms(1) by (cases f) auto
  have 1: "take 1 (f @ t) = [c]" "take 1 f = [c]" by (simp_all add: f)
  show ?thesis
  proof (cases "hex_prefix f")
    case True
    then have "drop 2 (f @ t) = drop 2 f @ t" using hex_prefix_length[OF True] by simp
    then show ?thesis
      using True hex_prefix_append[OF assms] strtoul_digits_append[OF t, of 16 "drop 2 f" 0]
      by (simp add: strtoul0_def)
  next
    case False
    then have h: "\<not> hex_prefix (f @ t)" using hex_prefix_append[OF assms] by simp
    show ?thesis
      unfolding strtoul0_def 1
      using False h strtoul_digits_append[OF t, of 8 f 0] strtoul_digits_append[OF t, of 10 f 0]
      by simp
  qed
qed

lemma strtoul0_suffix: "set (snd (strtoul0 f)) \<subseteq> set f"
  using strtoul_digits_suffix[of 16 "drop 2 f" 0] strtoul_digits_suffix[of 8 f 0]
    strtoul_digits_suffix[of 10 f 0] set_drop_subset[of 2 f]
  by (auto simp: strtoul0_def)

text \<open>The loop on a field that ends the string.\<close>
lemma inet_aton_loop_last:
  assumes "CHR ''.'' \<notin> set f" "\<forall>c\<in>set f. \<not> isspace c"
  shows "inet_aton_loop parts f = aton_fields parts [f]"
proof (cases "f \<noteq> [] \<and> isdigit (hd f)")
  case False
  then show ?thesis
    by (subst inet_aton_loop.simps) (auto simp: c_numeral_def split: list.splits)
next
  case True
  then obtain c cs where f: "f = c # cs" "isdigit c" by (cases f) auto
  obtain v r where vr: "strtoul0 f = (v, r)" by (cases "strtoul0 f")
  have r: "set r \<subseteq> set f" using strtoul0_suffix[of f] vr by simp
  show ?thesis
  proof (cases r)
    case Nil
    then show ?thesis
      using f vr by (subst inet_aton_loop.simps) (auto simp: c_numeral_def c_value_def)
  next
    case (Cons d r')
    then have "d \<in> set f" using r by auto
    then have "d \<noteq> CHR ''.''" "\<not> isspace d" using assms by auto
    then show ?thesis
      using f vr Cons by (subst inet_aton_loop.simps) (auto simp: c_numeral_def c_value_def)
  qed
qed

text \<open>The loop on a field that is followed by a dot.\<close>
lemma inet_aton_loop_dot:
  assumes "CHR ''.'' \<notin> set f" "\<forall>c\<in>set f. \<not> isspace c"
  shows "inet_aton_loop parts (f @ CHR ''.'' # s') =
    (if c_numeral f \<and> c_value f \<le> 0xff \<and> length parts \<le> 2
     then inet_aton_loop (parts @ [c_value f]) s' else None)"
proof (cases "f \<noteq> [] \<and> isdigit (hd f)")
  case False
  show ?thesis
  proof (cases f)
    case Nil
    then show ?thesis
      by (subst inet_aton_loop.simps) (simp add: c_numeral_def isdigit_def)
  next
    case (Cons c cs)
    with False have "\<not> isdigit c" by simp
    then show ?thesis
      using Cons by (subst inet_aton_loop.simps) (simp add: c_numeral_def)
  qed
next
  case True
  then obtain c cs where f: "f = c # cs" "isdigit c" by (cases f) auto
  obtain v r where vr: "strtoul0 f = (v, r)" by (cases "strtoul0 f")
  have a: "strtoul0 (f @ CHR ''.'' # s') = (v, r @ CHR ''.'' # s')"
    using strtoul0_append[of f "CHR ''.'' # s'"] f(1) vr by simp
  have r: "set r \<subseteq> set f" using strtoul0_suffix[of f] vr by simp
  show ?thesis
  proof (cases r)
    case Nil
    then show ?thesis
      using f vr a by (subst inet_aton_loop.simps) (auto simp: c_numeral_def c_value_def)
  next
    case (Cons d r')
    then have "d \<in> set f" using r by auto
    then have "d \<noteq> CHR ''.''" "\<not> isspace d" using assms by auto
    then show ?thesis
      using f vr a Cons by (subst inet_aton_loop.simps) (auto simp: c_numeral_def c_value_def)
  qed
qed

lemma inet_aton_loop_fields:
  assumes "\<forall>c\<in>set s. \<not> isspace c"
  shows "inet_aton_loop parts s = aton_fields parts (split_dots s)"
  using assms
proof (induction parts "split_dots s" arbitrary: s rule: aton_fields.induct)
  case (1 parts)
  then show ?case using split_dots_nonempty[of s] by simp
next
  case (2 parts f)
  from split_dots_single[OF 2(1)[symmetric]] 2(2) show ?case
    using inet_aton_loop_last[of f parts] 2(1)[symmetric] by auto
next
  case (3 parts f g fs)
  obtain s' where s': "s = f @ CHR ''.'' # s'" "split_dots s' = g # fs" "CHR ''.'' \<notin> set f"
    using split_dots_more[OF 3(2)[symmetric]] by blast
  have sp: "\<forall>c\<in>set f. \<not> isspace c" "\<forall>c\<in>set s'. \<not> isspace c"
    using 3(3) s'(1) by auto
  show ?case
  proof (cases "c_numeral f \<and> c_value f \<le> 0xff \<and> length parts \<le> 2")
    case True
    have "inet_aton_loop (parts @ [c_value f]) s' = aton_fields (parts @ [c_value f]) (split_dots s')"
      using 3(1)[OF True s'(2)[symmetric] sp(2)] .
    then show ?thesis
      using True inet_aton_loop_dot[OF s'(3) sp(1), of parts s'] s' 3(2)[symmetric] by simp
  next
    case False
    then show ?thesis
      using inet_aton_loop_dot[OF s'(3) sp(1), of parts s'] s' 3(2)[symmetric] by auto
  qed
qed

lemma aton_fields_too_many:
  "length parts \<le> 3 \<Longrightarrow> 4 < length parts + length fs \<Longrightarrow> aton_fields parts fs = None"
  by (induction parts fs rule: aton_fields.induct) auto

lemma aton_fields_not_numeral:
  "\<exists>f\<in>set fs. \<not> c_numeral f \<Longrightarrow> aton_fields parts fs = None"
  by (induction parts fs rule: aton_fields.induct) auto

lemma aton_fields_octet_range:
  "length parts + length fs = 4 \<Longrightarrow> \<exists>f\<in>set fs. 255 < c_value f \<Longrightarrow> aton_fields parts fs = None"
proof (induction parts fs rule: aton_fields.induct)
  case (1 parts)
  then show ?case by simp
next
  case (2 parts f)
  then have "length parts = 3" by simp
  then show ?case using 2 by (simp add: inet_aton_finish_def)
next
  case (3 parts f g fs)
  then show ?case by auto
qed

lemma iptoint_fields:
  assumes "\<forall>c\<in>set s. \<not> isspace c" "aton_fields [] (split_dots s) = None"
  shows "\<exists>e. iptoint s = Inl e"
proof -
  have "inet_aton_loop [] s = None" using inet_aton_loop_fields[OF assms(1), of "[]"] assms(2) by simp
  then show ?thesis by (simp add: iptoint_def inet_aton_def)
qed

lemma digits_of_lt: "2 \<le> b \<Longrightarrow> d \<in> set (digits_of b n) \<Longrightarrow> d < b"
proof (induction b n rule: digits_of.induct)
  case (1 b n)
  show ?case
  proof (cases "n < b")
    case True
    then show ?thesis using 1(3) by (subst (asm) digits_of.simps) simp
  next
    case False
    then have "digits_of b n = digits_of b (n div b) @ [n mod b]"
      using 1(2) by (subst digits_of.simps) simp
    then show ?thesis using 1 False by auto
  qed
qed

lemma digits_of_nonempty: "digits_of b n \<noteq> []"
  by (subst digits_of.simps) simp

lemma fold_digits_of: "2 \<le> b \<Longrightarrow> fold (\<lambda>d a. a * b + d) (digits_of b n) 0 = n"
proof (induction b n rule: digits_of.induct)
  case (1 b n)
  show ?case
  proof (cases "n < b")
    case True
    then show ?thesis by (subst digits_of.simps) simp
  next
    case False
    then have "digits_of b n = digits_of b (n div b) @ [n mod b]"
      using 1(2) by (subst digits_of.simps) simp
    then show ?thesis using 1 False by simp
  qed
qed

lemma hd_digits_of: "2 \<le> b \<Longrightarrow> 0 < n \<Longrightarrow> hd (digits_of b n) \<noteq> 0"
proof (induction b n rule: digits_of.induct)
  case (1 b n)
  show ?case
  proof (cases "n < b")
    case True
    then show ?thesis using 1(3) by (subst digits_of.simps) simp
  next
    case False
    then have e: "digits_of b n = digits_of b (n div b) @ [n mod b]"
      using 1(2) by (subst digits_of.simps) simp
    have "0 < n div b" using False 1(2) by (simp add: div_greater_zero_iff)
    then have "hd (digits_of b (n div b)) \<noteq> 0" using 1 False by simp
    then show ?thesis using e digits_of_nonempty[of b "n div b"] by simp
  qed
qed

lemma digits_of_0: "digits_of b 0 = [0]"
  by (subst digits_of.simps) auto

lemma less_16_cases:
  "d < 16 \<Longrightarrow> d \<in> {0, 1, 2, 3, 4, 5, 6, 7, 8, 9, 10, 11, 12, 13, 14, 15::nat}"
  by simp arith

lemma less_10_cases: "d < 10 \<Longrightarrow> d \<in> {0, 1, 2, 3, 4, 5, 6, 7, 8, 9::nat}"
  by simp arith

lemma digit_value_hexdigit: "d < 16 \<Longrightarrow> digit_value (hexdigit d) = Some d"
  by (drule less_16_cases) (auto simp: digit_value_def hexdigit_def)

lemma hexdigit_props:
  assumes "d < 10"
  shows "isdigit (hexdigit d)" "hexdigit d \<noteq> CHR ''.''" "\<not> isspace (hexdigit d)"
    "hexdigit d \<noteq> CHR 0x00" "hexdigit d \<noteq> CHR ''x''" "hexdigit d \<noteq> CHR ''X''"
    "hexdigit d = CHR ''0'' \<longleftrightarrow> d = 0"
  using less_10_cases[OF assms] by (auto simp: hexdigit_def isdigit_def isspace_def)

lemma strtoul_digits_map:
  "\<forall>d\<in>set ds. d < base \<Longrightarrow> base \<le> 16 \<Longrightarrow>
     strtoul_digits base (map hexdigit ds) acc = (fold (\<lambda>d a. a * base + d) ds acc, [])"
  by (induction ds arbitrary: acc) (auto simp: digit_value_hexdigit)

lemma hex_prefix_digits: "\<forall>d\<in>set ds. d < 10 \<Longrightarrow> \<not> hex_prefix (map hexdigit ds)"
proof (cases ds)
  case Nil
  then show ?thesis by (simp add: hex_prefix_def)
next
  case 1: (Cons d0 ds1)
  assume a: "\<forall>d\<in>set ds. d < 10"
  show ?thesis
  proof (cases ds1)
    case Nil
    then show ?thesis using 1 by (simp add: hex_prefix_def)
  next
    case 2: (Cons d1 ds2)
    then have "d1 < 10" using a 1 by simp
    then show ?thesis using 1 2 hexdigit_props(5,6)[of d1]
      by (cases ds2) (auto simp: hex_prefix_def)
  qed
qed

lemma py_str_chars:
  "c \<in> set (py_str n) \<Longrightarrow> isdigit c \<and> c \<noteq> CHR ''.'' \<and> \<not> isspace c \<and> c \<noteq> CHR 0x00"
  using digits_of_lt[of 10 _ n] hexdigit_props by (auto simp: py_str_def)

lemma py_str_nonempty: "py_str n \<noteq> []"
  by (simp add: py_str_def digits_of_nonempty)

lemma strtoul0_py_str: "strtoul0 (py_str n) = (n, [])"
proof (cases "n = 0")
  case True
  then show ?thesis
    by (simp add: py_str_def digits_of_0 strtoul0_def hex_prefix_def hexdigit_def digit_value_def)
next
  case False
  define ds where "ds = digits_of 10 n"
  have lt: "\<forall>d\<in>set ds. d < 10" using digits_of_lt[of 10 _ n] by (auto simp: ds_def)
  have ne: "ds \<noteq> []" by (simp add: ds_def digits_of_nonempty)
  have "hd ds \<noteq> 0" unfolding ds_def using False by (intro hd_digits_of) auto
  moreover have "hd ds < 10" using lt ne by (cases ds) auto
  ultimately have "hexdigit (hd ds) \<noteq> CHR ''0''" using hexdigit_props(7) by simp
  then have t: "take 1 (map hexdigit ds) \<noteq> ''0''" using ne by (cases ds) auto
  have "strtoul_digits 10 (map hexdigit ds) 0 = (fold (\<lambda>d a. a * 10 + d) ds 0, [])"
    using lt by (intro strtoul_digits_map) auto
  also have "fold (\<lambda>d a. a * 10 + d) ds 0 = n" unfolding ds_def by (rule fold_digits_of) simp
  finally show ?thesis
    using t hex_prefix_digits[OF lt] by (simp add: strtoul0_def py_str_def ds_def[symmetric])
qed

lemma c_numeral_py_str: "c_numeral (py_str n)" and c_value_py_str: "c_value (py_str n) = n"
proof -
  have "isdigit (hd (py_str n))"
    using py_str_chars[of "hd (py_str n)" n] py_str_nonempty[of n] by simp
  then show "c_numeral (py_str n)" by (simp add: c_numeral_def py_str_nonempty strtoul0_py_str)
  show "c_value (py_str n) = n" by (simp add: c_value_def strtoul0_py_str)
qed

lemma split_dots_no_dot: "CHR ''.'' \<notin> set f \<Longrightarrow> split_dots f = [f]"
  by (induction f) auto

lemma split_dots_append:
  "CHR ''.'' \<notin> set f \<Longrightarrow> split_dots (f @ CHR ''.'' # s) = f # split_dots s"
  by (induction f) auto

lemma split_dots_dotted: "split_dots (dotted a b c d) = [py_str a, py_str b, py_str c, py_str d]"
proof -
  have n: "CHR ''.'' \<notin> set (py_str k)" for k using py_str_chars[of "CHR ''.''" k] by auto
  show ?thesis
    by (simp add: dotted_def split_dots_append[OF n] split_dots_no_dot[OF n])
qed

lemma dotted_chars: "c \<in> set (dotted a b c1 d) \<Longrightarrow> \<not> isspace c \<and> c \<noteq> CHR 0x00"
  using py_str_chars[of c a] py_str_chars[of c b] py_str_chars[of c c1] py_str_chars[of c d]
  by (auto simp: dotted_def isspace_def)

lemma int_of_hex_digits_bytes:
  "\<forall>b\<in>set bs. b < 256 \<Longrightarrow>
     int_of_hex_digits (bytes_hex bs) acc = Inr (int (fold (\<lambda>b a. a * 256 + b) bs acc))"
proof (induction bs arbitrary: acc)
  case Nil
  then show ?case by (simp add: bytes_hex_def)
next
  case (Cons b bs)
  then have b: "b div 16 < 16" "b mod 16 < 16" by auto
  have e: "(acc * 16 + b div 16) * 16 + b mod 16 = acc * 256 + b" by (simp add: algebra_simps)
  have "int_of_hex_digits (bytes_hex (b # bs)) acc
      = int_of_hex_digits (bytes_hex bs) ((acc * 16 + b div 16) * 16 + b mod 16)"
    using b by (simp add: bytes_hex_def digit_value_hexdigit)
  also have "\<dots> = Inr (int (fold (\<lambda>b a. a * 256 + b) bs (acc * 256 + b)))"
    unfolding e using Cons by simp
  finally show ?case by simp
qed

lemma bytes_hex_nonempty: "bs \<noteq> [] \<Longrightarrow> bytes_hex bs \<noteq> []"
  by (cases bs) (simp_all add: bytes_hex_def)

lemma pack_bytes:
  fixes a b c d :: nat
  assumes "a < 256" "b < 256" "c < 256" "d < 256"
  shows "(((a * 256 + b) * 256 + c) * 256 + d) div 16777216 = a"
    and "(((a * 256 + b) * 256 + c) * 256 + d) div 65536 mod 256 = b"
    and "(((a * 256 + b) * 256 + c) * 256 + d) div 256 mod 256 = c"
    and "(((a * 256 + b) * 256 + c) * 256 + d) mod 256 = d"
proof -
  define w1 where "w1 = (a * 256 + b) * 256 + c"
  define w2 where "w2 = a * 256 + b"
  have 1: "(w1 * 256 + d) div 256 = w1" "(w1 * 256 + d) mod 256 = d" using assms(4) by simp_all
  have "w1 = w2 * 256 + c" by (simp add: w1_def w2_def)
  then have 2: "w1 div 256 = w2" "w1 mod 256 = c" using assms(3) by simp_all
  have 3: "w2 div 256 = a" "w2 mod 256 = b" using assms(2) by (simp_all add: w2_def)
  have d2: "x div 65536 = x div 256 div 256" for x :: nat
    using div_mult2_eq[of x 256 256] by simp
  have d3: "x div 16777216 = x div 256 div 256 div 256" for x :: nat
    using div_mult2_eq[of x 256 65536] d2[of "x div 256"] by simp
  show "(((a * 256 + b) * 256 + c) * 256 + d) div 16777216 = a"
    unfolding d3 w1_def[symmetric] 1 2 3 ..
  show "(((a * 256 + b) * 256 + c) * 256 + d) div 65536 mod 256 = b"
    unfolding d2 w1_def[symmetric] 1 2 3 ..
  show "(((a * 256 + b) * 256 + c) * 256 + d) div 256 mod 256 = c"
    unfolding w1_def[symmetric] 1 2 ..
  show "(((a * 256 + b) * 256 + c) * 256 + d) mod 256 = d"
    unfolding w1_def[symmetric] 1 ..
qed

text \<open>A dotted quad of four octets converts to the integer with these four bytes.\<close>
lemma iptoint_dotted:
  assumes "a < 256" "b < 256" "c < 256" "d < 256"
  shows "iptoint (dotted a b c d) = Inr (int (((a * 256 + b) * 256 + c) * 256 + d))"
proof -
  define w where "w = ((a * 256 + b) * 256 + c) * 256 + d"
  have sp: "\<forall>x\<in>set (dotted a b c d). \<not> isspace x" and nul: "CHR 0x00 \<notin> set (dotted a b c d)"
    using dotted_chars[of _ a b c d] by auto
  have "inet_aton_loop [] (dotted a b c d) = aton_fields [] [py_str a, py_str b, py_str c, py_str d]"
    using inet_aton_loop_fields[OF sp, of "[]"] by (simp add: split_dots_dotted)
  also have "\<dots> = Some w"
    using assms by (simp add: c_numeral_py_str c_value_py_str inet_aton_finish_def w_def)
  finally have l: "inet_aton_loop [] (dotted a b c d) = Some w" .
  have bytes: "w div 16777216 = a" "w div 65536 mod 256 = b" "w div 256 mod 256 = c" "w mod 256 = d"
    using assms unfolding w_def by (rule pack_bytes)+
  have "inet_aton (dotted a b c d) = Inr [a, b, c, d]"
    using nul l bytes by (simp add: inet_aton_def)
  moreover have "int_of_hex (bytes_hex [a, b, c, d]) = Inr (int w)"
    using int_of_hex_digits_bytes[of "[a, b, c, d]" 0] assms bytes_hex_nonempty[of "[a, b, c, d]"]
    by (simp add: int_of_hex_def w_def)
  ultimately show ?thesis by (simp add: iptoint_def w_def)
qed

lemma pdigits_zero: "pdigits k 0 = replicate k 0"
  by (induction k) (simp_all add: replicate_append_same)

lemma length_pdigits: "length (pdigits k m) = k"
  by (induction k arbitrary: m) simp_all

lemma pad_digits_of:
  "m < 16 ^ Suc k \<Longrightarrow>
     replicate (Suc k - length (digits_of 16 m)) 0 @ digits_of 16 m = pdigits (Suc k) m"
proof (induction k arbitrary: m)
  case 0
  then have "digits_of 16 m = [m]" by (subst digits_of.simps) simp
  then show ?case using 0 by simp
next
  case (Suc k)
  show ?case
  proof (cases "m < 16")
    case True
    then have "digits_of 16 m = [m]" by (subst digits_of.simps) simp
    then show ?thesis using True by (simp add: pdigits_zero replicate_append_same)
  next
    case False
    then have e: "digits_of 16 m = digits_of 16 (m div 16) @ [m mod 16]"
      by (subst digits_of.simps) simp
    have "m div 16 < 16 ^ Suc k" using Suc.prems by (simp add: less_mult_imp_div_less)
    from Suc.IH[OF this] show ?thesis by (simp add: e)
  qed
qed

lemma pdigits_pbytes:
  "pdigits (2 * k) m = concat (map (\<lambda>b. [b div 16, b mod 16]) (pbytes k m))"
proof (induction k arbitrary: m)
  case 0
  then show ?case by simp
next
  case (Suc k)
  have a: "m div 16 div 16 = m div 256" using div_mult2_eq[of m 16 16] by simp
  have b: "m div 16 mod 16 = m mod 256 div 16"
    using mod_mult2_eq[of m 16 16] by simp
  have c: "m mod 16 = m mod 256 mod 16"
    using mod_mod_cancel[of 16 256 m] by simp
  have "pdigits (2 * Suc k) m = pdigits (2 * k) (m div 16 div 16) @ [m div 16 mod 16, m mod 16]"
    by simp
  also have "\<dots> = pdigits (2 * k) (m div 256) @ [m mod 256 div 16, m mod 256 mod 16]"
    using a b c by simp
  finally show ?case using Suc by simp
qed

lemma pbytes_4:
  assumes "m < 4294967296"
  shows "pbytes 4 m = [m div 16777216, m div 65536 mod 256, m div 256 mod 256, m mod 256]"
proof -
  have d2: "m div 256 div 256 = m div 65536" using div_mult2_eq[of m 256 256] by simp
  have d3: "m div 65536 div 256 = m div 16777216"
    using div_mult2_eq[of m 65536 256] by simp
  have "m div 16777216 < 256" using assms by (simp add: less_mult_imp_div_less)
  then have d4: "m div 16777216 mod 256 = m div 16777216" by simp
  have 4: "(4::nat) = Suc (Suc (Suc (Suc 0)))" by simp
  show ?thesis unfolding 4 pbytes.simps d2 d3 d4 by simp
qed

lemma unhexlify_bytes_hex: "\<forall>b\<in>set bs. b < 256 \<Longrightarrow> unhexlify (bytes_hex bs) = Inr bs"
proof (induction bs)
  case Nil
  then show ?case by (simp add: bytes_hex_def)
next
  case (Cons b bs)
  then have b: "b div 16 < 16" "b mod 16 < 16" by auto
  have "unhexlify (bytes_hex bs) = Inr bs" using Cons by simp
  then show ?case using b by (simp add: bytes_hex_def digit_value_hexdigit)
qed

lemma hexdigit_not_sign: "d < 16 \<Longrightarrow> hexdigit d \<noteq> CHR ''+'' \<and> hexdigit d \<noteq> CHR ''-''"
  by (drule less_16_cases) (auto simp: hexdigit_def)

text \<open>An integer of 32 bits converts to the dotted quad of its four bytes.\<close>
lemma inttoip_bytes:
  assumes "0 \<le> n" "n \<le> 4294967295"
  shows "inttoip n = Inr (dotted (nat n div 16777216) (nat n div 65536 mod 256)
                            (nat n div 256 mod 256) (nat n mod 256))"
proof -
  define m where "m = nat n"
  define ds where "ds = digits_of 16 m"
  have m: "m < 4294967296" using assms by (simp add: m_def)
  then have m8: "m < 16 ^ Suc 7" by simp
  have hx: "drop 2 (py_hex n) = map hexdigit ds"
    using assms(1) by (simp add: py_hex_def m_def ds_def)
  have pad: "replicate (8 - length ds) 0 @ ds = pdigits 8 m"
    using pad_digits_of[OF m8] by (simp add: ds_def)
  have len: "length ds \<le> 8"
    using arg_cong[OF pad, of length] by (simp add: length_pdigits)
  have ne: "ds \<noteq> []" by (simp add: ds_def digits_of_nonempty)
  have "hd ds < 16" using digits_of_lt[of 16 "hd ds" m] ne by (simp add: ds_def)
  then have sign: "hd (map hexdigit ds) \<noteq> CHR ''+''" "hd (map hexdigit ds) \<noteq> CHR ''-''"
    using hexdigit_not_sign[of "hd ds"] ne by (simp_all add: hd_map)
  have "zfill 8 (map hexdigit ds) = replicate (8 - length ds) (CHR ''0'') @ map hexdigit ds"
    using sign len by (auto simp: zfill_def)
  also have "\<dots> = map hexdigit (replicate (8 - length ds) 0 @ ds)"
    by (simp add: hexdigit_def)
  also have "\<dots> = map hexdigit (pdigits (2 * 4) m)" using pad by simp
  also have "\<dots> = bytes_hex (pbytes 4 m)"
    by (simp only: pdigits_pbytes bytes_hex_def map_concat) (simp add: comp_def)
  finally have z: "zfill 8 (drop 2 (py_hex n)) = bytes_hex (pbytes 4 m)" by (simp add: hx)
  have pb: "pbytes 4 m = [m div 16777216, m div 65536 mod 256, m div 256 mod 256, m mod 256]"
    by (rule pbytes_4[OF m])
  have "m div 16777216 < 256" using m by (simp add: less_mult_imp_div_less)
  then have "unhexlify (bytes_hex (pbytes 4 m)) = Inr (pbytes 4 m)"
    by (intro unhexlify_bytes_hex) (simp add: pb)
  then have "inttoip n = inet_ntoa (pbytes 4 m)" by (simp add: inttoip_def z)
  also have "\<dots> = Inr (dotted (m div 16777216) (m div 65536 mod 256) (m div 256 mod 256) (m mod 256))"
    unfolding pb by (simp add: inet_ntoa_def dotted_def)
  finally show ?thesis by (simp add: m_def)
qed

lemma digits_of_fold:
  assumes "2 \<le> b"
  shows "ds \<noteq> [] \<Longrightarrow> \<forall>d\<in>set ds. d < b \<Longrightarrow> hd ds \<noteq> 0 \<or> ds = [0] \<Longrightarrow>
     digits_of b (fold (\<lambda>d a. a * b + d) ds 0) = ds"
proof (induction ds rule: rev_induct)
  case Nil
  then show ?case by simp
next
  case (snoc x xs)
  have x: "x < b" using snoc.prems(2) by simp
  show ?case
  proof (cases "xs = []")
    case True
    then show ?thesis using x by (subst digits_of.simps) simp
  next
    case False
    then have hx: "hd xs \<noteq> 0" using snoc.prems(3) by (cases xs) auto
    define v where "v = fold (\<lambda>d a. a * b + d) xs 0"
    have ih: "digits_of b v = xs"
      unfolding v_def using snoc.IH[OF False] snoc.prems(2) hx by simp
    have "v \<noteq> 0"
    proof
      assume "v = 0"
      then have "xs = [0]" using ih by (simp add: digits_of_0)
      then show False using hx by simp
    qed
    then have ge: "b \<le> v * b + x" by (cases v) auto
    have dv: "(v * b + x) div b = v" "(v * b + x) mod b = x" using x by simp_all
    have "digits_of b (v * b + x) = digits_of b ((v * b + x) div b) @ [(v * b + x) mod b]"
      using ge assms by (subst digits_of.simps) simp
    then show ?thesis using ih dv by (simp add: v_def)
  qed
qed

lemma isdigit_char:
  assumes "isdigit c"
  shows "of_char c - 48 < (10::nat)" "hexdigit (of_char c - 48) = c"
    "of_char c - 48 = (0::nat) \<longleftrightarrow> c = CHR ''0''"
  using assms by (auto simp: isdigit_def hexdigit_def)

lemma py_str_decimal_value:
  assumes "decimal_field f" "no_leading_zero f"
  shows "py_str (decimal_value f) = f"
proof -
  define ds :: "nat list" where "ds = map (\<lambda>c. of_char c - 48) f"
  have f: "f \<noteq> []" "\<forall>c\<in>set f. isdigit c" using assms(1) by (auto simp: decimal_field_def)
  have ne: "ds \<noteq> []" using f(1) by (simp add: ds_def)
  have lt: "\<forall>d\<in>set ds. d < 10" using f(2) isdigit_char(1) by (auto simp: ds_def)
  have bk: "map hexdigit ds = f"
    using f(2) isdigit_char(2) by (simp add: ds_def map_idI)
  have hdz: "hd ds \<noteq> 0 \<or> ds = [0]"
  proof (cases "f = ''0''")
    case True
    then show ?thesis by (simp add: ds_def)
  next
    case False
    then have "hd f \<noteq> CHR ''0''" using assms(2) by (simp add: no_leading_zero_def)
    moreover have "hd ds = of_char (hd f) - 48" using f(1) by (simp add: ds_def hd_map)
    moreover have "isdigit (hd f)" using f by simp
    ultimately show ?thesis using isdigit_char(3)[of "hd f"] by simp
  qed
  have "decimal_value f = fold (\<lambda>d a. a * 10 + d) ds 0"
    by (simp add: decimal_value_def ds_def fold_map comp_def)
  then have "digits_of 10 (decimal_value f) = ds"
    using digits_of_fold[OF _ ne lt hdz] by simp
  then show ?thesis by (simp add: py_str_def bk)
qed

lemma split_dots_4:
  assumes "split_dots s = [f1, f2, f3, f4]"
  shows "s = f1 @ ''.'' @ f2 @ ''.'' @ f3 @ ''.'' @ f4"
proof -
  obtain s1 where 1: "s = f1 @ CHR ''.'' # s1" "split_dots s1 = [f2, f3, f4]"
    using split_dots_more[OF assms] by blast
  obtain s2 where 2: "s1 = f2 @ CHR ''.'' # s2" "split_dots s2 = [f3, f4]"
    using split_dots_more[OF 1(2)] by blast
  obtain s3 where 3: "s2 = f3 @ CHR ''.'' # s3" "split_dots s3 = [f4]"
    using split_dots_more[OF 2(2)] by blast
  have "s3 = f4" using split_dots_single[OF 3(2)] by simp
  then show ?thesis using 1 2 3 by simp
qed

lemma canonical_quad_dotted:
  assumes "canonical_quad s"
  shows "\<exists>a b c d. a < 256 \<and> b < 256 \<and> c < 256 \<and> d < 256 \<and> s = dotted a b c d"
proof -
  have len: "length (split_dots s) = 4"
    and fs: "\<forall>f\<in>set (split_dots s). decimal_field f \<and> decimal_value f \<le> 255 \<and> no_leading_zero f"
    using assms by (auto simp: canonical_quad_def dotted_quad_def)
  obtain f1 f2 f3 f4 where sp: "split_dots s = [f1, f2, f3, f4]"
    using len by (auto simp: length_Suc_conv eval_nat_numeral)
  have s: "s = f1 @ ''.'' @ f2 @ ''.'' @ f3 @ ''.'' @ f4" by (rule split_dots_4[OF sp])
  have r: "py_str (decimal_value f) = f" "decimal_value f < 256" if "f \<in> {f1, f2, f3, f4}" for f
  proof -
    have "decimal_field f \<and> decimal_value f \<le> 255 \<and> no_leading_zero f"
      using fs that sp by auto
    then show "py_str (decimal_value f) = f" "decimal_value f < 256"
      using py_str_decimal_value by auto
  qed
  have "s = dotted (decimal_value f1) (decimal_value f2) (decimal_value f3) (decimal_value f4)"
    using s r(1) by (simp add: dotted_def)
  then show ?thesis using r(2) by blast
qed

lemma roundtrip_dotted:
  assumes "a < 256" "b < 256" "c < 256" "d < 256"
  shows "(case iptoint (dotted a b c d) of Inl e \<Rightarrow> Inl e | Inr n \<Rightarrow> inttoip n) = Inr (dotted a b c d)"
proof -
  define w where "w = ((a * 256 + b) * 256 + c) * 256 + d"
  have i: "iptoint (dotted a b c d) = Inr (int w)"
    unfolding w_def by (rule iptoint_dotted[OF assms])
  have "w \<le> ((255 * 256 + 255) * 256 + 255) * 256 + 255"
    unfolding w_def using assms
    by (intro add_mono mult_right_mono) auto
  then have "int w \<le> 4294967295" by simp
  then have "inttoip (int w) = Inr (dotted (w div 16777216) (w div 65536 mod 256)
      (w div 256 mod 256) (w mod 256))"
    using inttoip_bytes[of "int w"] by simp
  then show ?thesis using i pack_bytes[OF assms] by (simp add: w_def)
qed

lemma roundtrip_int:
  assumes "0 \<le> n" "n \<le> 4294967295"
  shows "(case inttoip n of Inl e \<Rightarrow> Inl e | Inr s \<Rightarrow> iptoint s) = Inr n"
proof -
  define m where "m = nat n"
  have m: "m < 4294967296" using assms by (simp add: m_def)
  have a: "m div 16777216 < 256" using m by (simp add: less_mult_imp_div_less)
  have e: "(((m div 16777216) * 256 + m div 65536 mod 256) * 256 + m div 256 mod 256) * 256
          + m mod 256 = m"
  proof -
    have 1: "m = m div 256 * 256 + m mod 256" by simp
    have 2: "m div 256 = m div 256 div 256 * 256 + m div 256 mod 256" by simp
    have 3: "m div 256 div 256 = m div 256 div 256 div 256 * 256 + m div 256 div 256 mod 256" by simp
    have d2: "m div 256 div 256 = m div 65536" using div_mult2_eq[of m 256 256] by simp
    have d3: "m div 65536 div 256 = m div 16777216" using div_mult2_eq[of m 65536 256] by simp
    have a': "m div 16777216 mod 256 = m div 16777216" using a by simp
    show ?thesis using 1 2 3 unfolding d2 d3 a' by simp
  qed
  have "iptoint (dotted (m div 16777216) (m div 65536 mod 256) (m div 256 mod 256) (m mod 256))
     = Inr (int ((((m div 16777216) * 256 + m div 65536 mod 256) * 256 + m div 256 mod 256) * 256
          + m mod 256))"
    by (rule iptoint_dotted[OF a]) simp_all
  then have "iptoint (dotted (m div 16777216) (m div 65536 mod 256) (m div 256 mod 256) (m mod 256))
     = Inr (int m)"
    unfolding e .
  moreover have "int m = n" using assms(1) by (simp add: m_def)
  ultimately show ?thesis using inttoip_bytes[OF assms] by (simp add: m_def)
qed


section \<open>The claims about the codec\<close>

text \<open>
  Claim C1. For every integer \<open>x\<close> in \<open>[0, 4294967295]\<close> and every precision \<open>p\<close> in \<open>[1, 10]\<close>,
  \<^verbatim>\<open>decode_exactly(encode(x, p))\<close> returns a pair \<open>(value, margin)\<close> with
  \<open>|value - x| \<le> margin\<close> up to floating rounding. The rounding is made explicit: the
  distance exceeds the margin by at most \<open>2 ^ -21\<close>, half the spacing of the doubles just
  below \<open>2 ^ 32\<close>.
\<close>

theorem roundtrip_within_margin:
  assumes "0 \<le> x" "x \<le> 4294967295" "1 \<le> p" "p \<le> 10"
  shows "\<exists>v m. decode_exactly (encode (of_int x) p) = Inr (v, m) \<and> \<bar>v - of_int x\<bar> \<le> m + 1 / 2 ^ 21"
proof -
  have x: "(0::rat) \<le> of_int x" "(of_int x :: rat) \<le> 4294967295"
    using assms(1,2) by simp_all
  have n: "nat p \<le> 10" using assms(4) by simp
  have e: "encode (of_int x) p = fst (encode_chars (of_int x) (nat p) (0, 4294967295))"
    using assms(3,4) by (intro encode_of_chars) auto
  from roundtrip[OF x n] show ?thesis unfolding e by blast
qed

theorem roundtrip_within_margin_witness:
  "(0::int) \<le> 1115866757 \<and> (1115866757::int) \<le> 4294967295 \<and> (1::int) \<le> 5 \<and> (5::int) \<le> 10 \<and>
   (\<exists>v m. decode_exactly (encode (of_int 1115866757) 5) = Inr (v, m)
      \<and> \<bar>v - of_int 1115866757\<bar> \<le> m + 1 / 2 ^ 21)"
  using roundtrip_within_margin[of 1115866757 5] by simp

text \<open>
  Claim C2. For every integer \<open>x\<close> in \<open>[0, 4294967295]\<close> and all precisions
  \<open>1 \<le> p1 < p2 \<le> 10\<close>, \<^verbatim>\<open>encode(x, p1)\<close> is the first \<open>p1\<close> characters of
  \<^verbatim>\<open>encode(x, p2)\<close>.
\<close>

theorem prefix_hierarchy:
  assumes "0 \<le> x" "x \<le> 4294967295" "1 \<le> p1" "p1 < p2" "p2 \<le> 10"
  shows "encode (of_int x) p1 = take (nat p1) (encode (of_int x) p2)"
proof -
  have "nat p1 \<le> nat p2" using assms(4) by simp
  then have "take (nat p1) (fst (encode_chars (of_int x) (nat p2) (0, 4294967295)))
      = fst (encode_chars (of_int x) (nat p1) (0, 4294967295))"
    by (rule take_encode_chars)
  moreover have "encode (of_int x) p1 = fst (encode_chars (of_int x) (nat p1) (0, 4294967295))"
    using assms by (intro encode_of_chars) auto
  moreover have "encode (of_int x) p2 = fst (encode_chars (of_int x) (nat p2) (0, 4294967295))"
    using assms by (intro encode_of_chars) auto
  ultimately show ?thesis by simp
qed

theorem prefix_hierarchy_witness:
  "(0::int) \<le> 1115866757 \<and> (1115866757::int) \<le> 4294967295 \<and> (1::int) \<le> 5 \<and> (5::int) < 10 \<and>
   (10::int) \<le> 10 \<and> encode (of_int 1115866757) 5 = take (nat 5) (encode (of_int 1115866757) 10)"
  using prefix_hierarchy[of 1115866757 5 10] by simp

text \<open>
  Claim C3. For every integer \<open>x\<close> in \<open>[0, 4294967295]\<close> and \<open>p\<close> in \<open>[1, 10]\<close>, the margin
  returned by \<^verbatim>\<open>decode_exactly(encode(x, p))\<close> is \<open>2147483647.5 / 8 ^ p\<close>; going from \<open>p\<close>
  to \<open>p + 1\<close> divides it by \<open>8\<close>, so it strictly decreases.
\<close>

theorem margin_factor_8:
  assumes "0 \<le> x" "x \<le> 4294967295" "1 \<le> p" "p \<le> 10"
  shows "(\<exists>v. decode_exactly (encode (of_int x) p) = Inr (v, 4294967295 / 2 / 8 ^ nat p)) \<and>
    (p < 10 \<longrightarrow>
      (\<exists>v m. decode_exactly (encode (of_int x) (p + 1)) = Inr (v, m) \<and>
         m = 4294967295 / 2 / 8 ^ nat p / 8 \<and> m < 4294967295 / 2 / 8 ^ nat p))"
proof -
  have x: "(0::rat) \<le> of_int x" "(of_int x :: rat) \<le> 4294967295"
    using assms(1,2) by simp_all
  have at: "\<exists>v. decode_exactly (encode (of_int x) q) = Inr (v, 4294967295 / 2 / 8 ^ nat q)"
    if "1 \<le> q" "q \<le> 10" for q
  proof -
    have n: "nat q \<le> 10" using that by simp
    have e: "encode (of_int x) q = fst (encode_chars (of_int x) (nat q) (0, 4294967295))"
      using that by (intro encode_of_chars) auto
    from roundtrip[OF x n] show ?thesis unfolding e by blast
  qed
  have "\<exists>v m. decode_exactly (encode (of_int x) (p + 1)) = Inr (v, m) \<and>
         m = 4294967295 / 2 / 8 ^ nat p / 8 \<and> m < 4294967295 / 2 / 8 ^ nat p" if lt: "p < 10"
  proof -
    obtain v where v: "decode_exactly (encode (of_int x) (p + 1)) = Inr (v, 4294967295 / 2 / 8 ^ nat (p + 1))"
      using at[of "p + 1"] assms(3) lt by auto
    have s: "nat (p + 1) = Suc (nat p)" using assms(3) by simp
    define c :: rat where "c = 4294967295 / 2 / 8 ^ nat p"
    have "0 < c" by (simp add: c_def)
    then have "c / 8 < c" by simp
    moreover have "4294967295 / 2 / 8 ^ nat (p + 1) = c / 8" by (simp add: s c_def)
    ultimately show ?thesis using v unfolding c_def[symmetric] by simp
  qed
  then show ?thesis using at[OF assms(3,4)] by blast
qed

theorem margin_factor_8_witness:
  "(0::int) \<le> 1115866757 \<and> (1115866757::int) \<le> 4294967295 \<and> (1::int) \<le> 5 \<and> (5::int) \<le> 10 \<and>
   (5::int) < 10 \<and>
   (\<exists>v. decode_exactly (encode (of_int 1115866757) 5) = Inr (v, 4294967295 / 2 / 8 ^ nat 5)) \<and>
   (\<exists>v m. decode_exactly (encode (of_int 1115866757) (5 + 1)) = Inr (v, m) \<and>
      m = 4294967295 / 2 / 8 ^ nat 5 / 8 \<and> m < 4294967295 / 2 / 8 ^ nat 5)"
  using margin_factor_8[of 1115866757 5] by simp

text \<open>
  Claim C4. \<^verbatim>\<open>encode\<close> clamps its precision to \<open>[0, 10]\<close>: for every value and every
  \<open>p > 10\<close>, \<^verbatim>\<open>encode(value, p)\<close> is \<^verbatim>\<open>encode(value, 10)\<close>, a token of exactly 10
  characters; for every \<open>q \<le> 0\<close>, \<^verbatim>\<open>encode(value, q)\<close> is \<^verbatim>\<open>encode(value, 0)\<close>, the
  empty string. \<open>encode\<close> is a total function: no precision raises an error.
\<close>

theorem precision_clamped:
  assumes "10 < p" "q \<le> 0"
  shows "encode v p = encode v 10 \<and> length (encode v 10) = 10 \<and>
         encode v q = encode v 0 \<and> encode v 0 = []"
  using assms by (simp add: encode_above_10 encode_nonpos length_encode)

theorem precision_clamped_witness:
  "(10::int) < 11 \<and> (- 3::int) \<le> 0 \<and>
   encode 1115866757 11 = encode 1115866757 10 \<and> length (encode 1115866757 10) = 10 \<and>
   encode 1115866757 (- 3) = encode 1115866757 0 \<and> encode 1115866757 0 = []"
  using precision_clamped[of 11 "- 3" 1115866757] by simp

text \<open>
  Claim C6. For every integer \<open>x\<close> in \<open>[0, 4294967295]\<close>, \<^verbatim>\<open>decode(encode(x, 10))\<close>
  differs from \<open>x\<close> by no more than \<open>2\<close>.
\<close>

theorem ten_characters_within_2:
  assumes "0 \<le> x" "x \<le> 4294967295"
  shows "\<exists>v. decode (encode (of_int x) 10) = Inr v \<and> \<bar>v - of_int x\<bar> \<le> 2"
proof -
  have x: "(0::rat) \<le> of_int x" "(of_int x :: rat) \<le> 4294967295"
    using assms by simp_all
  have e: "encode (of_int x) 10 = fst (encode_chars (of_int x) 10 (0, 4294967295))"
    using encode_of_chars[of 10 "of_int x"] by simp
  obtain v where v: "decode_exactly (encode (of_int x) 10) = Inr (v, 4294967295 / 2 / 8 ^ 10)"
    and b: "\<bar>v - of_int x\<bar> \<le> 2 ^ (31 - 3 * 10)"
    using roundtrip[OF x, of 10] unfolding e by auto
  have "decode (encode (of_int x) 10) = Inr v" by (simp add: decode_def v)
  then show ?thesis using b by simp
qed

theorem ten_characters_within_2_witness:
  "(0::int) \<le> 4294967295 \<and> (4294967295::int) \<le> 4294967295 \<and>
   (\<exists>v. decode (encode (of_int 4294967295) 10) = Inr v \<and> \<bar>v - of_int 4294967295\<bar> \<le> 2)"
  using ten_characters_within_2[of 4294967295] by simp

text \<open>
  Claim C9. \<^verbatim>\<open>decode\<close> and \<^verbatim>\<open>decode_exactly\<close> fail, with \<^verbatim>\<open>KeyError\<close>, for every
  string with at least one character outside the alphabet \<open>{0, 1, a, b, c, d, e, f}\<close>; no
  value is returned.
\<close>

theorem invalid_character_rejected:
  assumes "\<exists>c\<in>set t. c \<notin> {CHR ''0'', CHR ''1'', CHR ''a'', CHR ''b'', CHR ''c'', CHR ''d'', CHR ''e'', CHR ''f''}"
  shows "decode_exactly t = Inl KeyError \<and> decode t = Inl KeyError"
proof -
  have "\<exists>c\<in>set t. c \<notin> set base32" using assms by (simp only: set_base32)
  then have "decode_loop t ((0, 4294967295), 4294967295 / 2) = Inl KeyError"
    by (rule decode_loop_KeyError)
  then have "decode_exactly t = Inl KeyError" by (simp add: decode_exactly_unfold)
  then show ?thesis by (simp add: decode_def)
qed

theorem invalid_character_rejected_witness:
  "(\<exists>c\<in>set ''a0g1''. c \<notin> {CHR ''0'', CHR ''1'', CHR ''a'', CHR ''b'', CHR ''c'', CHR ''d'', CHR ''e'', CHR ''f''})
   \<and> decode_exactly ''a0g1'' = Inl KeyError \<and> decode ''a0g1'' = Inl KeyError"
proof -
  have h: "\<exists>c\<in>set ''a0g1''. c \<notin> {CHR ''0'', CHR ''1'', CHR ''a'', CHR ''b'', CHR ''c'', CHR ''d'', CHR ''e'', CHR ''f''}"
    by simp
  show ?thesis using h invalid_character_rejected[OF h] by blast
qed

text \<open>
  Claim C10. For every token \<open>t\<close> over the alphabet, the margin returned by
  \<^verbatim>\<open>decode_exactly(t)\<close> is \<open>2147483647.5 / 8 ^ len(t)\<close>. This fails for long tokens: the
  margin is a double, and from 358 characters on \<open>2147483647.5 / 8 ^ len(t)\<close> is below the
  smallest spacing of the doubles. After 358 characters the margin is \<open>2 ^ -1043\<close>.
\<close>

theorem margin_formula_fails_at_358_counterexample:
  "map_sum id snd (decode_exactly (replicate 358 (CHR ''0''))) = Inr (1 / 2 ^ 1043) \<and>
   (1::rat) / 2 ^ 1043 \<noteq> 4294967295 / 2 / 8 ^ 358"
proof -
  have "set (replicate 358 (CHR ''0'')) \<subseteq> set base32" by (auto simp: base32_def)
  from decode_exactly_margin[OF this]
  obtain v where "decode_exactly (replicate 358 (CHR ''0'')) = Inr (v, (halve ^^ (3 * 358)) (4294967295 / 2))"
    by auto
  then have "map_sum id snd (decode_exactly (replicate 358 (CHR ''0''))) = Inr (1 / 2 ^ 1043)"
    by (simp only: margin_358 map_sum.simps snd_conv)
  moreover have "(1::rat) / 2 ^ 1043 \<noteq> 4294967295 / 2 / 8 ^ 358"
  proof -
    have "(8::rat) ^ 358 = 2 ^ 31 * 2 ^ 1043" by (simp only: pow8 power_add[symmetric]) simp
    then show ?thesis by (simp add: field_simps)
  qed
  ultimately show ?thesis by blast
qed

text \<open>
  Claim C10, amended. For every token \<open>t\<close> over the alphabet, \<^verbatim>\<open>decode_exactly(t)\<close>
  returns a margin that depends only on the length of \<open>t\<close>; for tokens of at most 357
  characters it is \<open>2147483647.5 / 8 ^ len(t)\<close>, in particular \<open>2147483647.5\<close> for the
  empty token.
\<close>

theorem margin_depends_on_length:
  assumes "set t \<subseteq> {CHR ''0'', CHR ''1'', CHR ''a'', CHR ''b'', CHR ''c'', CHR ''d'', CHR ''e'', CHR ''f''}"
  shows "\<exists>v m. decode_exactly t = Inr (v, m) \<and>
    (length t \<le> 357 \<longrightarrow> m = 4294967295 / 2 / 8 ^ length t) \<and>
    (\<forall>t'. set t' \<subseteq> {CHR ''0'', CHR ''1'', CHR ''a'', CHR ''b'', CHR ''c'', CHR ''d'', CHR ''e'', CHR ''f''}
        \<and> length t' = length t \<longrightarrow> (\<exists>v'. decode_exactly t' = Inr (v', m)))"
proof -
  define m where "m = (halve ^^ (3 * length t)) (4294967295 / 2)"
  have t: "set t \<subseteq> set base32" using assms by (simp only: set_base32)
  obtain v where v: "decode_exactly t = Inr (v, m)"
    using decode_exactly_margin[OF t] unfolding m_def by blast
  have "m = 4294967295 / 2 / 8 ^ length t" if "length t \<le> 357"
    unfolding m_def by (rule margin_exact[OF that])
  moreover have "\<exists>v'. decode_exactly t' = Inr (v', m)"
    if "set t' \<subseteq> {CHR ''0'', CHR ''1'', CHR ''a'', CHR ''b'', CHR ''c'', CHR ''d'', CHR ''e'', CHR ''f''}
        \<and> length t' = length t" for t'
  proof -
    have "set t' \<subseteq> set base32" using that by (simp only: set_base32)
    from decode_exactly_margin[OF this] show ?thesis using that by (simp add: m_def)
  qed
  ultimately show ?thesis using v by blast
qed

theorem margin_depends_on_length_witness:
  "set ''a0d01'' \<subseteq> {CHR ''0'', CHR ''1'', CHR ''a'', CHR ''b'', CHR ''c'', CHR ''d'', CHR ''e'', CHR ''f''} \<and>
   (\<exists>v m. decode_exactly ''a0d01'' = Inr (v, m) \<and>
    (length ''a0d01'' \<le> 357 \<longrightarrow> m = 4294967295 / 2 / 8 ^ length ''a0d01'') \<and>
    (\<forall>t'. set t' \<subseteq> {CHR ''0'', CHR ''1'', CHR ''a'', CHR ''b'', CHR ''c'', CHR ''d'', CHR ''e'', CHR ''f''}
        \<and> length t' = length ''a0d01'' \<longrightarrow> (\<exists>v'. decode_exactly t' = Inr (v', m))))"
proof -
  have h: "set ''a0d01'' \<subseteq> {CHR ''0'', CHR ''1'', CHR ''a'', CHR ''b'', CHR ''c'', CHR ''d'', CHR ''e'', CHR ''f''}"
    by simp
  show ?thesis using h margin_depends_on_length[OF h] by blast
qed

section \<open>The claims about the address conversions\<close>

text \<open>
  Claim C5. \<^verbatim>\<open>iptoint("66.96.160.133")\<close> returns \<open>1115866757\<close>, and
  \<^verbatim>\<open>decode_exactly(encode(1115866757, 5))\<close> returns a value within the margin of five
  characters, about \<open>65536\<close>, of \<open>1115866757\<close>. The integer is wrong: the address
  \<^verbatim>\<open>66.96.160.133\<close> is \<^verbatim>\<open>0x4260a085\<close>, that is \<open>1113628805\<close>.
\<close>

theorem address_66_96_160_133_counterexample:
  "iptoint ''66.96.160.133'' = Inr 1113628805 \<and> iptoint ''66.96.160.133'' \<noteq> Inr 1115866757"
  by (simp add: iptoint_def inet_aton_def inet_aton_loop.simps strtoul0_def hex_prefix_def
      isdigit_def isspace_def digit_value_def inet_aton_finish_def bytes_hex_def hexdigit_def
      int_of_hex_def)

text \<open>
  Claim C5, amended. \<^verbatim>\<open>iptoint("66.96.160.133")\<close> returns \<open>1113628805\<close>, and for this
  integer, as for \<open>1115866757\<close>, \<^verbatim>\<open>decode_exactly(encode(x, 5))\<close> returns the margin
  \<open>4294967295 / 65536\<close> and a value no further than \<open>65536\<close> from \<open>x\<close>.
\<close>

theorem address_66_96_160_133:
  "iptoint ''66.96.160.133'' = Inr 1113628805 \<and>
   (\<exists>v. decode_exactly (encode 1113628805 5) = Inr (v, 4294967295 / 65536) \<and> \<bar>v - 1113628805\<bar> \<le> 65536) \<and>
   (\<exists>v. decode_exactly (encode 1115866757 5) = Inr (v, 4294967295 / 65536) \<and> \<bar>v - 1115866757\<bar> \<le> 65536)"
proof -
  have a: "iptoint ''66.96.160.133'' = Inr 1113628805"
    by (simp add: iptoint_def inet_aton_def inet_aton_loop.simps strtoul0_def hex_prefix_def
        isdigit_def isspace_def digit_value_def inet_aton_finish_def bytes_hex_def hexdigit_def
        int_of_hex_def)
  have b: "\<exists>v. decode_exactly (encode x 5) = Inr (v, 4294967295 / 65536) \<and> \<bar>v - x\<bar> \<le> 65536"
    if "0 \<le> x" "x \<le> 4294967295" for x
  proof -
    have e: "encode x 5 = fst (encode_chars x 5 (0, 4294967295))"
      using encode_of_chars[of 5 x] by simp
    show ?thesis using roundtrip[OF that, of 5] unfolding e by auto
  qed
  show ?thesis using a b[of 1113628805] b[of 1115866757] by simp
qed

text \<open>
  Claim C7. \<^verbatim>\<open>iptoint\<close> fails for every malformed dotted quad: a wrong number of
  octets, an octet outside \<open>[0, 255]\<close>, a token that is not a number. This fails:
  \<^verbatim>\<open>inet_aton\<close> accepts fewer than four numbers, numbers in hexadecimal or octal, and
  anything after white space.
\<close>

theorem malformed_address_accepted_counterexample:
  "\<not> dotted_quad ''1.2.3'' \<and> iptoint ''1.2.3'' = Inr 16908291 \<and>
   \<not> dotted_quad ''0x10.2.3.4'' \<and> iptoint ''0x10.2.3.4'' = Inr 268567300 \<and>
   \<not> dotted_quad ''1.2.3.4 junk'' \<and> iptoint ''1.2.3.4 junk'' = Inr 16909060"
proof -
  have "\<not> dotted_quad ''1.2.3'' \<and> \<not> dotted_quad ''0x10.2.3.4'' \<and> \<not> dotted_quad ''1.2.3.4 junk''"
    by (simp add: dotted_quad_def decimal_field_def decimal_value_def isdigit_def)
  moreover have "iptoint ''1.2.3'' = Inr 16908291"
    by (simp add: iptoint_def inet_aton_def inet_aton_loop.simps strtoul0_def hex_prefix_def
        isdigit_def isspace_def digit_value_def inet_aton_finish_def bytes_hex_def hexdigit_def
        int_of_hex_def)
  moreover have "iptoint ''0x10.2.3.4'' = Inr 268567300"
    by (simp add: iptoint_def inet_aton_def inet_aton_loop.simps strtoul0_def hex_prefix_def
        isdigit_def isspace_def digit_value_def inet_aton_finish_def bytes_hex_def hexdigit_def
        int_of_hex_def)
  moreover have "iptoint ''1.2.3.4 junk'' = Inr 16909060"
    by (simp add: iptoint_def inet_aton_def inet_aton_loop.simps strtoul0_def hex_prefix_def
        isdigit_def isspace_def digit_value_def inet_aton_finish_def bytes_hex_def hexdigit_def
        int_of_hex_def)
  ultimately show ?thesis by blast
qed

text \<open>
  Claim C7, amended. For a string without white space, \<^verbatim>\<open>iptoint\<close> fails (with
  \<^verbatim>\<open>OSError\<close>, or \<^verbatim>\<open>ValueError\<close> when the string has a null character) if it has more
  than four fields between dots, or a field that is not a C numeral (decimal, octal with a
  leading 0, hexadecimal with a leading 0x), or if it has four fields and one of them is
  above 255.
\<close>

theorem malformed_address_rejected:
  assumes "\<forall>c\<in>set s. \<not> isspace c"
    and "4 < length (split_dots s) \<or> (\<exists>f\<in>set (split_dots s). \<not> c_numeral f) \<or>
         length (split_dots s) = 4 \<and> (\<exists>f\<in>set (split_dots s). 255 < c_value f)"
  shows "iptoint s = Inl (if CHR 0x00 \<in> set s then ValueError else OSError)"
proof -
  have "aton_fields [] (split_dots s) = None"
    using assms(2) aton_fields_too_many[of "[]" "split_dots s"]
      aton_fields_not_numeral[of "split_dots s" "[]"]
      aton_fields_octet_range[of "[]" "split_dots s"]
    by auto
  then have "inet_aton_loop [] s = None"
    using inet_aton_loop_fields[OF assms(1), of "[]"] by simp
  then show ?thesis by (simp add: iptoint_def inet_aton_def)
qed

theorem malformed_address_rejected_witness:
  "4 < length (split_dots ''1.2.3.4.5'') \<and> iptoint ''1.2.3.4.5'' = Inl OSError \<and>
   length (split_dots ''1.2.3.256'') = 4 \<and> (\<exists>f\<in>set (split_dots ''1.2.3.256''). 255 < c_value f) \<and>
   iptoint ''1.2.3.256'' = Inl OSError \<and>
   (\<exists>f\<in>set (split_dots ''1.x.3.4''). \<not> c_numeral f) \<and> iptoint ''1.x.3.4'' = Inl OSError"
proof -
  have 1: "\<forall>c\<in>set ''1.2.3.4.5''. \<not> isspace c" "4 < length (split_dots ''1.2.3.4.5'')"
    by (simp_all add: isspace_def)
  have 2: "\<forall>c\<in>set ''1.2.3.256''. \<not> isspace c" "length (split_dots ''1.2.3.256'') = 4"
    "\<exists>f\<in>set (split_dots ''1.2.3.256''). 255 < c_value f"
    by (simp_all add: isspace_def c_value_def strtoul0_def hex_prefix_def digit_value_def)
  have 3: "\<forall>c\<in>set ''1.x.3.4''. \<not> isspace c" "\<exists>f\<in>set (split_dots ''1.x.3.4''). \<not> c_numeral f"
    by (simp_all add: isspace_def c_numeral_def isdigit_def)
  show ?thesis
    using 1 2 3 malformed_address_rejected[of "''1.2.3.4.5''"]
      malformed_address_rejected[of "''1.2.3.256''"] malformed_address_rejected[of "''1.x.3.4''"]
    by simp
qed

text \<open>
  Claim C8. For every syntactically valid dotted quad \<open>s\<close>,
  \<^verbatim>\<open>inttoip(iptoint(s))\<close> is \<open>s\<close>, and for every integer \<open>n\<close> in \<open>[0, 4294967295]\<close>,
  \<^verbatim>\<open>iptoint(inttoip(n))\<close> is \<open>n\<close>. The first part fails for an octet with a leading zero:
  \<^verbatim>\<open>01.2.3.4\<close> comes back as \<^verbatim>\<open>1.2.3.4\<close>.
\<close>

theorem leading_zero_roundtrip_counterexample:
  "dotted_quad ''01.2.3.4'' \<and>
   (case iptoint ''01.2.3.4'' of Inl e \<Rightarrow> Inl e | Inr n \<Rightarrow> inttoip n) = Inr ''1.2.3.4''"
proof -
  have "dotted_quad ''01.2.3.4''"
    by (simp add: dotted_quad_def decimal_field_def decimal_value_def isdigit_def)
  moreover have "iptoint ''01.2.3.4'' = Inr 16909060"
    by (simp add: iptoint_def inet_aton_def inet_aton_loop.simps strtoul0_def hex_prefix_def
        isdigit_def isspace_def digit_value_def inet_aton_finish_def bytes_hex_def hexdigit_def
        int_of_hex_def)
  moreover have "inttoip 16909060 = Inr ''1.2.3.4''"
    by (simp add: inttoip_def py_hex_def zfill_def digits_of.simps hexdigit_def digit_value_def
        inet_ntoa_def py_str_def)
  ultimately show ?thesis by simp
qed

text \<open>
  Claim C8, amended. For every dotted quad \<open>s\<close> whose four octets are written in decimal
  without leading zeros, \<^verbatim>\<open>inttoip(iptoint(s))\<close> is \<open>s\<close>, and for every integer \<open>n\<close> in
  \<open>[0, 4294967295]\<close>, \<^verbatim>\<open>iptoint(inttoip(n))\<close> is \<open>n\<close>.
\<close>

theorem address_roundtrip:
  assumes "canonical_quad s" "0 \<le> n" "n \<le> 4294967295"
  shows "(case iptoint s of Inl e \<Rightarrow> Inl e | Inr k \<Rightarrow> inttoip k) = Inr s \<and>
         (case inttoip n of Inl e \<Rightarrow> Inl e | Inr t \<Rightarrow> iptoint t) = Inr n"
proof -
  obtain a b c d where "a < 256" "b < 256" "c < 256" "d < 256" "s = dotted a b c d"
    using canonical_quad_dotted[OF assms(1)] by blast
  then have "(case iptoint s of Inl e \<Rightarrow> Inl e | Inr k \<Rightarrow> inttoip k) = Inr s"
    using roundtrip_dotted[of a b c d] by simp
  then show ?thesis using roundtrip_int[OF assms(2,3)] by simp
qed

theorem address_roundtrip_witness:
  "canonical_quad ''66.96.160.133'' \<and> (0::int) \<le> 1113628805 \<and> (1113628805::int) \<le> 4294967295 \<and>
   (case iptoint ''66.96.160.133'' of Inl e \<Rightarrow> Inl e | Inr k \<Rightarrow> inttoip k) = Inr ''66.96.160.133'' \<and>
   (case inttoip 1113628805 of Inl e \<Rightarrow> Inl e | Inr t \<Rightarrow> iptoint t) = Inr 1113628805"
proof -
  have h: "canonical_quad ''66.96.160.133''"
    by (simp add: dotted_quad_def canonical_quad_def decimal_field_def decimal_value_def
        isdigit_def no_leading_zero_def)
  show ?thesis using h address_roundtrip[OF h, of 1113628805] by simp
qed

end
